theory Spec2Isabelle
  imports Main "HOL-Library.Word"
begin

unbundle bit_operations_syntax

section \<open>Search expressions (search\_expression.cpp)\<close>

subsection \<open>Errors and the parsed expression\<close>

text \<open>The part of \<open>ErrorCode\<close> (utils/error.h) that the parser produces.\<close>

datatype ErrorCode = kSuccess | kQuerySyntaxError

record Error =
  code :: ErrorCode
  message :: string
  error_context :: string

definition MakeError :: "ErrorCode \<Rightarrow> string \<Rightarrow> Error" where
  "MakeError c m = \<lparr>code = c, message = m, error_context = []\<rparr>"

record SearchExpression =
  required_terms :: "string list"
  excluded_terms :: "string list"
  optional_terms :: "string list"
  raw_expression :: string

definition empty_expression :: SearchExpression where
  "empty_expression =
     \<lparr>required_terms = [], excluded_terms = [], optional_terms = [], raw_expression = []\<rparr>"

subsection \<open>Character classes\<close>

text \<open>\<open>std::isspace\<close> and \<open>std::isalnum\<close> on an unsigned char, in the "C" locale.\<close>

definition isspace :: "char \<Rightarrow> bool" where
  "isspace c = (let n = (of_char c :: nat) in n = 0x20 \<or> (0x09 \<le> n \<and> n \<le> 0x0D))"

definition isalnum :: "char \<Rightarrow> bool" where
  "isalnum c = (let n = (of_char c :: nat) in
     (0x30 \<le> n \<and> n \<le> 0x39) \<or> (0x41 \<le> n \<and> n \<le> 0x5A) \<or> (0x61 \<le> n \<and> n \<le> 0x7A))"

definition kFullWidthSpaceByte1 :: char where "kFullWidthSpaceByte1 = CHR 0xE3"
definition kFullWidthSpaceByte2 :: char where "kFullWidthSpaceByte2 = CHR 0x80"
definition kFullWidthSpaceByte3 :: char where "kFullWidthSpaceByte3 = CHR 0x80"

definition IsFullWidthSpace :: "string \<Rightarrow> nat \<Rightarrow> bool" where
  "IsFullWidthSpace str pos =
     (if pos + 2 \<ge> length str then False
      else str ! pos = kFullWidthSpaceByte1 \<and>
           str ! (pos + 1) = kFullWidthSpaceByte2 \<and>
           str ! (pos + 2) = kFullWidthSpaceByte3)"

subsection \<open>Tokenizer\<close>

datatype TokenType =
  kTerm | kQuotedTerm | kPlus | kMinus | kOr | kLParen | kRParen | kEnd

record Token =
  tok_type :: TokenType
  tok_value :: string

definition mk_token :: "TokenType \<Rightarrow> string \<Rightarrow> Token" where
  "mk_token t v = \<lparr>tok_type = t, tok_value = v\<rparr>"

text \<open>The tokenizer's state is its cursor \<open>pos_\<close>; the input is constant and passed along.\<close>

function SkipWhitespace :: "string \<Rightarrow> nat \<Rightarrow> nat" where
  "SkipWhitespace input pos =
     (if pos < length input then
        if IsFullWidthSpace input pos then SkipWhitespace input (pos + 3)
        else if isspace (input ! pos) then SkipWhitespace input (pos + 1)
        else pos
      else pos)"
  by pat_completeness auto
termination
  by (relation "measure (\<lambda>(input, pos). length input - pos)") auto

declare SkipWhitespace.simps [simp del]

definition is_special :: "char \<Rightarrow> bool" where
  "is_special c = (c = CHR ''+'' \<or> c = CHR ''-'' \<or> c = CHR ''('' \<or> c = CHR '')'' \<or> c = CHR 0x22)"

function ReadTerm_loop :: "string \<Rightarrow> nat \<Rightarrow> string \<Rightarrow> string \<times> nat" where
  "ReadTerm_loop input pos term =
     (if pos < length input then
        if IsFullWidthSpace input pos then (term, pos)
        else if isspace (input ! pos) \<or> is_special (input ! pos) then (term, pos)
        else ReadTerm_loop input (pos + 1) (term @ [input ! pos])
      else (term, pos))"
  by pat_completeness auto
termination
  by (relation "measure (\<lambda>(input, pos, term). length input - pos)") auto

declare ReadTerm_loop.simps [simp del]

definition ReadTerm :: "string \<Rightarrow> nat \<Rightarrow> string \<times> nat" where
  "ReadTerm input pos = ReadTerm_loop input pos []"

function ReadQuoted_loop :: "string \<Rightarrow> nat \<Rightarrow> string \<Rightarrow> string \<times> nat" where
  "ReadQuoted_loop input pos term =
     (if pos < length input then
        if input ! pos = CHR 0x22 then (term, pos + 1)
        else if input ! pos = CHR 0x5C \<and> pos + 1 < length input
          then ReadQuoted_loop input (pos + 2) (term @ [input ! (pos + 1)])
        else ReadQuoted_loop input (pos + 1) (term @ [input ! pos])
      else (term, pos))"
  by pat_completeness auto
termination
  by (relation "measure (\<lambda>(input, pos, term). length input - pos)") auto

declare ReadQuoted_loop.simps [simp del]

definition ReadQuotedString :: "string \<Rightarrow> nat \<Rightarrow> string \<times> nat" where
  "ReadQuotedString input pos =
     (if pos \<ge> length input \<or> input ! pos \<noteq> CHR 0x22 then ([], pos)
      else ReadQuoted_loop input (pos + 1) [])"

definition is_whole_word_or :: "string \<Rightarrow> nat \<Rightarrow> bool" where
  "is_whole_word_or input pos =
     (\<not> (pos > 0 \<and> isalnum (input ! (pos - 1))) \<and>
      \<not> (pos + 2 < length input \<and> isalnum (input ! (pos + 2))))"

definition Next :: "string \<Rightarrow> nat \<Rightarrow> Token \<times> nat" where
  "Next input pos0 =
     (let pos = SkipWhitespace input pos0 in
      if pos \<ge> length input then (mk_token kEnd [], pos)
      else let current_char = input ! pos in
        if current_char = CHR 0x22 then
          (let (quoted, pos') = ReadQuotedString input pos in (mk_token kQuotedTerm quoted, pos'))
        else if current_char = CHR ''+'' then (mk_token kPlus [], pos + 1)
        else if current_char = CHR ''-'' then (mk_token kMinus [], pos + 1)
        else if current_char = CHR ''('' then (mk_token kLParen [], pos + 1)
        else if current_char = CHR '')'' then (mk_token kRParen [], pos + 1)
        else if pos + 2 \<le> length input \<and> take 2 (drop pos input) = ''OR'' \<and>
                is_whole_word_or input pos
          then (mk_token kOr ''OR'', pos + 2)
        else (let (term, pos') = ReadTerm input pos in (mk_token kTerm term, pos')))"

subsection \<open>The tokenizer moves forward\<close>

lemma SkipWhitespace_ge: "pos \<le> SkipWhitespace input pos"
proof (induction input pos rule: SkipWhitespace.induct)
  case (1 input pos)
  show ?case
    using 1 by (subst SkipWhitespace.simps) auto
qed

lemma SkipWhitespace_stop:
  "SkipWhitespace input pos < length input \<Longrightarrow>
     \<not> IsFullWidthSpace input (SkipWhitespace input pos) \<and>
     \<not> isspace (input ! SkipWhitespace input pos)"
proof (induction input pos rule: SkipWhitespace.induct)
  case (1 input pos)
  show ?case
    using 1 by (subst (1 2) SkipWhitespace.simps, subst (asm) (3) SkipWhitespace.simps) (auto split: if_splits)
qed

lemma ReadTerm_loop_ge: "pos \<le> snd (ReadTerm_loop input pos term)"
proof (induction input pos "term" rule: ReadTerm_loop.induct)
  case (1 input pos "term")
  show ?case
    using 1 by (subst ReadTerm_loop.simps) auto
qed

lemma ReadQuoted_loop_ge: "pos \<le> snd (ReadQuoted_loop input pos term)"
proof (induction input pos "term" rule: ReadQuoted_loop.induct)
  case (1 input pos "term")
  show ?case
    using 1 by (subst ReadQuoted_loop.simps) auto
qed

lemma ReadTerm_progress:
  assumes "pos < length input" "\<not> IsFullWidthSpace input pos"
    "\<not> isspace (input ! pos)" "\<not> is_special (input ! pos)"
  shows "pos < snd (ReadTerm input pos)"
proof -
  have "ReadTerm input pos = ReadTerm_loop input (pos + 1) ([] @ [input ! pos])"
    unfolding ReadTerm_def using assms by (subst ReadTerm_loop.simps) simp
  moreover have "pos + 1 \<le> snd (ReadTerm_loop input (pos + 1) ([] @ [input ! pos]))"
    by (rule ReadTerm_loop_ge)
  ultimately show ?thesis by simp
qed

lemma ReadQuotedString_progress:
  assumes "pos < length input" "input ! pos = CHR 0x22"
  shows "pos < snd (ReadQuotedString input pos)"
proof -
  have "pos + 1 \<le> snd (ReadQuoted_loop input (pos + 1) [])"
    by (rule ReadQuoted_loop_ge)
  then show ?thesis using assms by (simp add: ReadQuotedString_def)
qed

lemma Next_ge: "pos \<le> snd (Next input pos)"
proof -
  let ?p = "SkipWhitespace input pos"
  have a: "pos \<le> ?p" by (rule SkipWhitespace_ge)
  have b: "?p \<le> snd (ReadQuotedString input ?p)"
    using ReadQuoted_loop_ge [of "?p + 1" input "[]"] by (simp add: ReadQuotedString_def)
  have c: "?p \<le> snd (ReadTerm input ?p)"
    unfolding ReadTerm_def by (rule ReadTerm_loop_ge)
  show ?thesis
    using a b c by (auto simp: Next_def Let_def split: prod.splits)
qed

lemma Next_progress:
  assumes "tok_type (fst (Next input pos)) \<noteq> kEnd"
  shows "pos < snd (Next input pos) \<and> pos < length input"
proof -
  let ?p = "SkipWhitespace input pos"
  have a: "pos \<le> ?p" by (rule SkipWhitespace_ge)
  have lt: "?p < length input"
    using assms by (auto simp: Next_def Let_def mk_token_def split: if_splits)
  note stop = SkipWhitespace_stop [OF lt]
  have q: "input ! ?p = CHR 0x22 \<Longrightarrow> ?p < snd (ReadQuotedString input ?p)"
    using lt by (rule ReadQuotedString_progress)
  have t: "\<not> is_special (input ! ?p) \<Longrightarrow> ?p < snd (ReadTerm input ?p)"
    using lt stop by (auto intro: ReadTerm_progress)
  have "?p < snd (Next input pos)"
    using lt q t by (auto simp: Next_def Let_def is_special_def split: prod.splits)
  then show ?thesis using a lt by simp
qed


subsection \<open>Parser\<close>

record Parser =
  tokenizer_pos :: nat
  current :: Token
  last_pos :: nat

definition Advance :: "string \<Rightarrow> Parser \<Rightarrow> Parser" where
  "Advance input st =
     (let (tok, pos') = Next input (tokenizer_pos st)
      in \<lparr>tokenizer_pos = pos', current = tok, last_pos = tokenizer_pos st\<rparr>)"

text \<open>The constructor: \<open>current_\<close> starts as \<open>kEnd\<close>, then one \<open>Advance\<close>.\<close>

definition Parser_init :: "string \<Rightarrow> Parser" where
  "Parser_init input =
     Advance input \<lparr>tokenizer_pos = 0, current = mk_token kEnd [], last_pos = 0\<rparr>"

definition quote :: string where "quote = [CHR 0x22]"

text \<open>What remains to be read: the bytes after the cursor, and the current token unless it is \<open>kEnd\<close>.\<close>

definition remaining :: "string \<Rightarrow> Parser \<Rightarrow> nat" where
  "remaining input st =
     (length input - tokenizer_pos st) + (if tok_type (current st) = kEnd then 0 else 1)"

lemma Advance_le: "remaining input (Advance input st) \<le> remaining input st"
  using Next_ge [of "tokenizer_pos st" input] Next_progress [of input "tokenizer_pos st"]
  by (auto simp: remaining_def Advance_def split: prod.splits)

lemma Advance_less:
  "tok_type (current st) \<noteq> kEnd \<Longrightarrow> remaining input (Advance input st) < remaining input st"
  using Next_ge [of "tokenizer_pos st" input] Next_progress [of input "tokenizer_pos st"]
  by (auto simp: remaining_def Advance_def split: prod.splits)

text \<open>The body of the do-while loop of \<open>CaptureParenExpression\<close>: \<open>None\<close> is the early
  \<open>return ""\<close> at \<open>kEnd\<close>.\<close>

definition paren_step :: "Token \<Rightarrow> string \<Rightarrow> int \<Rightarrow> (string \<times> int) option" where
  "paren_step tok oss depth =
     (if tok_type tok = kLParen then Some (oss @ ''('', depth + 1)
      else if tok_type tok = kRParen then Some (oss @ '')'', depth - 1)
      else if tok_type tok = kTerm then Some (oss @ tok_value tok, depth)
      else if tok_type tok = kQuotedTerm then Some (oss @ quote @ tok_value tok @ quote, depth)
      else if tok_type tok = kOr then Some (oss @ '' OR '', depth)
      else if tok_type tok = kPlus then Some (oss @ ''+'', depth)
      else if tok_type tok = kMinus then Some (oss @ ''-'', depth)
      else None)"

lemma paren_step_not_End: "paren_step tok oss depth = Some r \<Longrightarrow> tok_type tok \<noteq> kEnd"
  by (auto simp: paren_step_def split: if_splits)

function CaptureParen_loop :: "string \<Rightarrow> Parser \<Rightarrow> string \<Rightarrow> int \<Rightarrow> string \<times> Parser" where
  "CaptureParen_loop input st oss depth =
     (case paren_step (current st) oss depth of
        None \<Rightarrow> ([], st)
      | Some (oss', depth') \<Rightarrow>
          if depth' > 0 then CaptureParen_loop input (Advance input st) oss' depth'
          else (oss', Advance input st))"
  by pat_completeness auto
termination
  by (relation "measure (\<lambda>(input, st, oss, depth). remaining input st)")
     (auto simp: Advance_less dest: paren_step_not_End)

declare CaptureParen_loop.simps [simp del]

definition CaptureParenExpression :: "string \<Rightarrow> Parser \<Rightarrow> string \<times> Parser" where
  "CaptureParenExpression input st =
     (if tok_type (current st) \<noteq> kLParen then ([], st)
      else CaptureParen_loop input st [] 0)"

definition ParsePrefixedTerm :: "string \<Rightarrow> Parser \<Rightarrow> string option \<times> Parser" where
  "ParsePrefixedTerm input st =
     (if tok_type (current st) = kLParen then
        (let (expr, st') = CaptureParenExpression input st
         in (if expr = [] then None else Some expr, st'))
      else if tok_type (current st) = kTerm then
        (Some (tok_value (current st)), Advance input st)
      else if tok_type (current st) = kQuotedTerm then
        (Some (quote @ tok_value (current st) @ quote), Advance input st)
      else (None, st))"

definition LooksLikeOrExpression :: "string \<Rightarrow> Parser \<Rightarrow> bool \<times> Parser" where
  "LooksLikeOrExpression input st =
     (let saved_pos = tokenizer_pos st;
          saved_current = current st;
          st1 = Advance input st;
          has_or = (tok_type (current st1) = kOr);
          st2 = st1\<lparr>tokenizer_pos := saved_pos, current := saved_current\<rparr>
      in (has_or, st2))"

function CaptureOr_loop :: "string \<Rightarrow> Parser \<Rightarrow> string \<Rightarrow> string \<times> Parser" where
  "CaptureOr_loop input st oss =
     (if tok_type (current st) = kOr then
        (let oss1 = oss @ '' OR ''; st1 = Advance input st in
         if tok_type (current st1) = kTerm then
           CaptureOr_loop input (Advance input st1) (oss1 @ tok_value (current st1))
         else if tok_type (current st1) = kQuotedTerm then
           CaptureOr_loop input (Advance input st1) (oss1 @ quote @ tok_value (current st1) @ quote)
         else if tok_type (current st1) = kLParen then
           (case CaptureParenExpression input st1 of (paren, st2) \<Rightarrow>
              if paren = [] then ([], st2) else CaptureOr_loop input st2 (oss1 @ paren))
         else ([], st1))
      else (oss, st))"
  by pat_completeness auto


lemma CaptureParen_loop_le:
  "remaining input (snd (CaptureParen_loop input st oss depth)) \<le> remaining input st"
proof (induction input st oss depth rule: CaptureParen_loop.induct)
  case (1 input st oss depth)
  show ?case
  proof (cases "paren_step (current st) oss depth")
    case None
    then show ?thesis by (subst CaptureParen_loop.simps) simp
  next
    case (Some r)
    obtain oss' depth' where r: "r = (oss', depth')" by (cases r)
    have ne: "tok_type (current st) \<noteq> kEnd" using Some by (rule paren_step_not_End)
    show ?thesis
    proof (cases "depth' > 0")
      case True
      have "remaining input (snd (CaptureParen_loop input (Advance input st) oss' depth'))
              \<le> remaining input (Advance input st)"
        using 1 [OF Some r [symmetric] True] .
      also have "\<dots> \<le> remaining input st" by (rule Advance_le)
      finally show ?thesis using Some r True by (subst CaptureParen_loop.simps) simp
    next
      case False
      then show ?thesis using Some r Advance_le [of input st]
        by (subst CaptureParen_loop.simps) simp
    qed
  qed
qed

lemma CaptureParenExpression_le:
  "remaining input (snd (CaptureParenExpression input st)) \<le> remaining input st"
  by (simp add: CaptureParenExpression_def CaptureParen_loop_le)

lemma CaptureParenExpression_less:
  assumes "tok_type (current st) = kLParen"
  shows "remaining input (snd (CaptureParenExpression input st)) < remaining input st"
proof -
  have ne: "tok_type (current st) \<noteq> kEnd" using assms by simp
  have ps: "paren_step (current st) [] 0 = Some (''('', 1)"
    using assms by (simp add: paren_step_def)
  have "CaptureParenExpression input st = CaptureParen_loop input (Advance input st) ''('' 1"
    using assms ps by (simp add: CaptureParenExpression_def CaptureParen_loop.simps [of input st])
  moreover have "remaining input (snd (CaptureParen_loop input (Advance input st) ''('' 1))
      \<le> remaining input (Advance input st)"
    by (rule CaptureParen_loop_le)
  moreover have "remaining input (Advance input st) < remaining input st"
    using ne by (rule Advance_less)
  ultimately show ?thesis by simp
qed

termination CaptureOr_loop
proof (relation "measure (\<lambda>(input, st, oss). remaining input st)", goal_cases)
  case 1
  show ?case by simp
next
  case (2 input st oss x xa)
  then show ?case
    using Advance_less [of st input] Advance_le [of input "Advance input st"] by simp
next
  case (3 input st oss x xa)
  then show ?case
    using Advance_less [of st input] Advance_le [of input "Advance input st"] by simp
next
  case (4 input st oss x xa xb y)
  have "y = snd (CaptureParenExpression input (Advance input st))"
    using 4 by (metis snd_conv)
  then have "remaining input y \<le> remaining input (Advance input st)"
    by (simp add: CaptureParenExpression_le)
  moreover have "remaining input (Advance input st) < remaining input st"
    using 4 by (simp add: Advance_less)
  ultimately show ?case using 4 by simp
qed

declare CaptureOr_loop.simps [simp del]


lemma CaptureOr_loop_le:
  "remaining input (snd (CaptureOr_loop input st oss)) \<le> remaining input st"
proof (induction input st oss rule: CaptureOr_loop.induct)
  case (1 input st oss)
  show ?case
  proof (cases "tok_type (current st) = kOr")
    case False
    then show ?thesis by (subst CaptureOr_loop.simps) simp
  next
    case True
    let ?st1 = "Advance input st"
    have a: "remaining input ?st1 \<le> remaining input st" by (rule Advance_le)
    have b: "remaining input (Advance input ?st1) \<le> remaining input ?st1" by (rule Advance_le)
    have c: "remaining input (snd (CaptureParenExpression input ?st1)) \<le> remaining input ?st1"
      by (rule CaptureParenExpression_le)
    show ?thesis
      using True a b c 1 [OF True refl refl]
      by (subst CaptureOr_loop.simps) (auto simp: Let_def split: prod.splits)
  qed
qed

definition CaptureOrExpression :: "string \<Rightarrow> Parser \<Rightarrow> string \<times> Parser" where
  "CaptureOrExpression input st =
     (let oss = (if tok_type (current st) = kQuotedTerm
                 then quote @ tok_value (current st) @ quote
                 else tok_value (current st))
      in CaptureOr_loop input (Advance input st) oss)"



lemma ParsePrefixedTerm_le:
  "remaining input (snd (ParsePrefixedTerm input st)) \<le> remaining input st"
  using CaptureParenExpression_le [of input st] Advance_le [of input st]
  by (auto simp: ParsePrefixedTerm_def split: prod.splits)

lemma LooksLikeOrExpression_restores:
  "tokenizer_pos (snd (LooksLikeOrExpression input st)) = tokenizer_pos st \<and>
   current (snd (LooksLikeOrExpression input st)) = current st"
  by (simp add: LooksLikeOrExpression_def Let_def)

lemma LooksLikeOrExpression_remaining:
  "remaining input (snd (LooksLikeOrExpression input st)) = remaining input st"
  by (simp add: remaining_def LooksLikeOrExpression_restores)

lemma CaptureOrExpression_less:
  assumes "tok_type (current st) \<noteq> kEnd"
  shows "remaining input (snd (CaptureOrExpression input st)) < remaining input st"
proof -
  have "remaining input (snd (CaptureOrExpression input st)) \<le> remaining input (Advance input st)"
    by (simp add: CaptureOrExpression_def Let_def CaptureOr_loop_le)
  also have "\<dots> < remaining input st" using assms by (rule Advance_less)
  finally show ?thesis .
qed

definition apostrophe :: string where "apostrophe = [CHR 0x27]"

definition append_raw :: "SearchExpression \<Rightarrow> string \<Rightarrow> SearchExpression" where
  "append_raw expr s =
     expr\<lparr>raw_expression :=
       (if raw_expression expr \<noteq> [] then raw_expression expr @ '' '' else raw_expression expr) @ s\<rparr>"

function Parse_loop :: "string \<Rightarrow> Parser \<Rightarrow> SearchExpression \<Rightarrow> Error + SearchExpression" where
  "Parse_loop input st expr =
     (if tok_type (current st) \<noteq> kEnd then
        if tok_type (current st) = kPlus then
          (case ParsePrefixedTerm input (Advance input st) of
             (Some term, st') \<Rightarrow>
               Parse_loop input st' (expr\<lparr>required_terms := required_terms expr @ [term]\<rparr>)
           | (None, st') \<Rightarrow>
               Inl (MakeError kQuerySyntaxError
                     (''Expected term after '' @ apostrophe @ ''+'' @ apostrophe)))
        else if tok_type (current st) = kMinus then
          (case ParsePrefixedTerm input (Advance input st) of
             (Some term, st') \<Rightarrow>
               Parse_loop input st' (expr\<lparr>excluded_terms := excluded_terms expr @ [term]\<rparr>)
           | (None, st') \<Rightarrow>
               Inl (MakeError kQuerySyntaxError
                     (''Expected term after '' @ apostrophe @ ''-'' @ apostrophe)))
        else if tok_type (current st) = kLParen then
          (case CaptureParenExpression input st of
             (paren_expr, st') \<Rightarrow>
               if paren_expr = [] then
                 Inl (MakeError kQuerySyntaxError ''Unbalanced parentheses'')
               else Parse_loop input st' (append_raw expr paren_expr))
        else if tok_type (current st) = kTerm \<or> tok_type (current st) = kQuotedTerm then
          (case LooksLikeOrExpression input st of
             (has_or, st1) \<Rightarrow>
               if has_or then
                 (case CaptureOrExpression input st1 of
                    (or_expr, st') \<Rightarrow> Parse_loop input st' (append_raw expr or_expr))
               else
                 (let term = (if tok_type (current st1) = kQuotedTerm
                              then quote @ tok_value (current st1) @ quote
                              else tok_value (current st1))
                  in Parse_loop input (Advance input st1)
                       (expr\<lparr>required_terms := required_terms expr @ [term]\<rparr>)))
        else if tok_type (current st) = kOr then
          Inl (MakeError kQuerySyntaxError
                (''Unexpected '' @ apostrophe @ ''OR'' @ apostrophe @ '' operator''))
        else if tok_type (current st) = kRParen then
          Inl (MakeError kQuerySyntaxError (''Unexpected '' @ apostrophe @ '')'' @ apostrophe))
        else Parse_loop input (Advance input st) expr
      else Inr expr)"
  by pat_completeness auto
termination
proof (relation "measure (\<lambda>(input, st, expr). remaining input st)", goal_cases)
  case 1
  show ?case by simp
next
  case (2 input st expr x y z)
  have "y = snd (ParsePrefixedTerm input (Advance input st))" using 2 by (metis snd_conv)
  then have "remaining input y \<le> remaining input (Advance input st)"
    by (simp add: ParsePrefixedTerm_le)
  moreover have "remaining input (Advance input st) < remaining input st"
    using 2 by (simp add: Advance_less)
  ultimately show ?case by simp
next
  case (3 input st expr x y z)
  have "y = snd (ParsePrefixedTerm input (Advance input st))" using 3 by (metis snd_conv)
  then have "remaining input y \<le> remaining input (Advance input st)"
    by (simp add: ParsePrefixedTerm_le)
  moreover have "remaining input (Advance input st) < remaining input st"
    using 3 by (simp add: Advance_less)
  ultimately show ?case by simp
next
  case (4 input st expr x y)
  have "y = snd (CaptureParenExpression input st)" using 4 by (metis snd_conv)
  then show ?case using 4 by (simp add: CaptureParenExpression_less)
next
  case (5 input st expr x y x' y')
  have "y = snd (LooksLikeOrExpression input st)" using 5 by (metis snd_conv)
  then have a: "remaining input y = remaining input st" "current y = current st"
    by (simp_all add: LooksLikeOrExpression_remaining LooksLikeOrExpression_restores)
  have ne: "tok_type (current y) \<noteq> kEnd" using a 5 by simp
  have "y' = snd (CaptureOrExpression input y)" using 5 by (metis snd_conv)
  then have "remaining input y' < remaining input y"
    using CaptureOrExpression_less [OF ne, of input] by simp
  then show ?case using a by simp
next
  case (6 input st expr x y z)
  have "y = snd (LooksLikeOrExpression input st)" using 6 by (metis snd_conv)
  then have a: "remaining input y = remaining input st" "current y = current st"
    by (simp_all add: LooksLikeOrExpression_remaining LooksLikeOrExpression_restores)
  have ne: "tok_type (current y) \<noteq> kEnd" using a 6 by simp
  have "remaining input (Advance input y) < remaining input y"
    using ne by (rule Advance_less)
  then show ?case using a by simp
next
  case (7 input st expr)
  then show ?case by (simp add: Advance_less)
qed

declare Parse_loop.simps [simp del]

definition Parse :: "string \<Rightarrow> Error + SearchExpression" where
  "Parse input = Parse_loop input (Parser_init input) empty_expression"

definition ParseSearchExpression :: "string \<Rightarrow> Error + SearchExpression" where
  "ParseSearchExpression expression =
     (if expression = [] then Inl (MakeError kQuerySyntaxError ''Empty search expression'')
      else Parse expression)"

subsection \<open>Query string\<close>

text \<open>The first loop of \<open>ToQueryString\<close>, over the indices of \<open>required_terms\<close>.\<close>

definition required_step :: "string list \<Rightarrow> string \<Rightarrow> nat \<Rightarrow> string" where
  "required_step terms oss i = (if i > 0 then oss @ '' AND '' else oss) @ terms ! i"

definition excluded_step :: "string \<Rightarrow> string \<Rightarrow> string" where
  "excluded_step oss term = (if oss \<noteq> [] then oss @ '' AND '' else oss) @ ''NOT '' @ term"

definition ToQueryString :: "SearchExpression \<Rightarrow> string" where
  "ToQueryString expr =
     (let oss1 = (if required_terms expr \<noteq> []
                  then foldl (required_step (required_terms expr)) [] [0..<length (required_terms expr)]
                  else []);
          oss2 = foldl excluded_step oss1 (excluded_terms expr)
      in if raw_expression expr \<noteq> []
         then (if oss2 \<noteq> [] then oss2 @ '' AND '' else oss2) @ ''('' @ raw_expression expr @ '')''
         else oss2)"

section \<open>UTF-8 and n-grams (string\_utils.cpp)\<close>

type_synonym byte = "8 word"
type_synonym codepoint = "32 word"

subsection \<open>Constants\<close>

definition kUtf8OneByteMask :: byte where "kUtf8OneByteMask = 0x80"
definition kUtf8TwoByteMask :: byte where "kUtf8TwoByteMask = 0xE0"
definition kUtf8TwoBytePattern :: byte where "kUtf8TwoBytePattern = 0xC0"
definition kUtf8ThreeByteMask :: byte where "kUtf8ThreeByteMask = 0xF0"
definition kUtf8ThreeBytePattern :: byte where "kUtf8ThreeBytePattern = 0xE0"
definition kUtf8FourByteMask :: byte where "kUtf8FourByteMask = 0xF8"
definition kUtf8FourBytePattern :: byte where "kUtf8FourBytePattern = 0xF0"

definition kUtf8ContinuationMask :: byte where "kUtf8ContinuationMask = 0x3F"
definition kUtf8ContinuationPattern :: byte where "kUtf8ContinuationPattern = 0x80"

definition kUtf8TwoByteDatMask :: byte where "kUtf8TwoByteDatMask = 0x1F"
definition kUtf8ThreeByteDatMask :: byte where "kUtf8ThreeByteDatMask = 0x0F"
definition kUtf8FourByteDatMask :: byte where "kUtf8FourByteDatMask = 0x07"

definition kUtf8Shift6 :: nat where "kUtf8Shift6 = 6"
definition kUtf8Shift12 :: nat where "kUtf8Shift12 = 12"
definition kUtf8Shift18 :: nat where "kUtf8Shift18 = 18"

definition kUnicodeMaxOneByte :: codepoint where "kUnicodeMaxOneByte = 0x7F"
definition kUnicodeMaxTwoByte :: codepoint where "kUnicodeMaxTwoByte = 0x7FF"
definition kUnicodeMaxThreeByte :: codepoint where "kUnicodeMaxThreeByte = 0xFFFF"
definition kUnicodeMaxCodepoint :: codepoint where "kUnicodeMaxCodepoint = 0x10FFFF"

definition kCjkMainStart :: codepoint where "kCjkMainStart = 0x4E00"
definition kCjkMainEnd :: codepoint where "kCjkMainEnd = 0x9FFF"
definition kCjkExtAStart :: codepoint where "kCjkExtAStart = 0x3400"
definition kCjkExtAEnd :: codepoint where "kCjkExtAEnd = 0x4DBF"
definition kCjkExtBStart :: codepoint where "kCjkExtBStart = 0x20000"
definition kCjkExtBEnd :: codepoint where "kCjkExtBEnd = 0x2A6DF"
definition kCjkExtCStart :: codepoint where "kCjkExtCStart = 0x2A700"
definition kCjkExtCEnd :: codepoint where "kCjkExtCEnd = 0x2B73F"
definition kCjkExtDStart :: codepoint where "kCjkExtDStart = 0x2B740"
definition kCjkExtDEnd :: codepoint where "kCjkExtDEnd = 0x2B81F"
definition kCjkCompatStart :: codepoint where "kCjkCompatStart = 0xF900"
definition kCjkCompatEnd :: codepoint where "kCjkCompatEnd = 0xFAFF"

lemmas utf8_constants =
  kUtf8OneByteMask_def kUtf8TwoByteMask_def kUtf8TwoBytePattern_def kUtf8ThreeByteMask_def
  kUtf8ThreeBytePattern_def kUtf8FourByteMask_def kUtf8FourBytePattern_def
  kUtf8ContinuationMask_def kUtf8ContinuationPattern_def kUtf8TwoByteDatMask_def
  kUtf8ThreeByteDatMask_def kUtf8FourByteDatMask_def kUtf8Shift6_def kUtf8Shift12_def
  kUtf8Shift18_def kUnicodeMaxOneByte_def kUnicodeMaxTwoByte_def kUnicodeMaxThreeByte_def
  kUnicodeMaxCodepoint_def

lemmas cjk_constants =
  kCjkMainStart_def kCjkMainEnd_def kCjkExtAStart_def kCjkExtAEnd_def kCjkExtBStart_def
  kCjkExtBEnd_def kCjkExtCStart_def kCjkExtCEnd_def kCjkExtDStart_def kCjkExtDEnd_def
  kCjkCompatStart_def kCjkCompatEnd_def

subsection \<open>Decoding\<close>

definition Utf8CharLength :: "byte \<Rightarrow> nat" where
  "Utf8CharLength first_byte =
     (if first_byte AND kUtf8OneByteMask = 0 then 1
      else if first_byte AND kUtf8TwoByteMask = kUtf8TwoBytePattern then 2
      else if first_byte AND kUtf8ThreeByteMask = kUtf8ThreeBytePattern then 3
      else if first_byte AND kUtf8FourByteMask = kUtf8FourBytePattern then 4
      else 1)"

text \<open>
  The codepoint assembled from the \<open>char_len\<close> bytes at \<open>i\<close>. The masked bytes are
  widened (the integer promotion of C++) before they are shifted.
\<close>

definition decode_at :: "byte list \<Rightarrow> nat \<Rightarrow> nat \<Rightarrow> codepoint" where
  "decode_at text i char_len =
     (let first_byte = text ! i in
      if char_len = 1 then ucast first_byte
      else if char_len = 2 then
        push_bit kUtf8Shift6 (ucast (first_byte AND kUtf8TwoByteDatMask)) OR
        ucast (text ! (i + 1) AND kUtf8ContinuationMask)
      else if char_len = 3 then
        push_bit kUtf8Shift12 (ucast (first_byte AND kUtf8ThreeByteDatMask)) OR
        push_bit kUtf8Shift6 (ucast (text ! (i + 1) AND kUtf8ContinuationMask)) OR
        ucast (text ! (i + 2) AND kUtf8ContinuationMask)
      else if char_len = 4 then
        push_bit kUtf8Shift18 (ucast (first_byte AND kUtf8FourByteDatMask)) OR
        push_bit kUtf8Shift12 (ucast (text ! (i + 1) AND kUtf8ContinuationMask)) OR
        push_bit kUtf8Shift6 (ucast (text ! (i + 2) AND kUtf8ContinuationMask)) OR
        ucast (text ! (i + 3) AND kUtf8ContinuationMask)
      else 0)"

lemma Utf8CharLength_pos: "0 < Utf8CharLength b"
  by (simp add: Utf8CharLength_def)

text \<open>
  The loop of \<open>Utf8ToCodepoints\<close>, with its index \<open>i\<close> and the vector built so far.
  Sizes are natural numbers: \<open>i + char_len\<close> cannot wrap, as \<open>i\<close> is below the size of
  a string in memory and \<open>char_len\<close> is at most 4.
\<close>

function Utf8ToCodepoints_loop :: "byte list \<Rightarrow> nat \<Rightarrow> codepoint list \<Rightarrow> codepoint list" where
  "Utf8ToCodepoints_loop text i codepoints =
     (if i < length text then
        (let char_len = Utf8CharLength (text ! i) in
         if i + char_len > length text then Utf8ToCodepoints_loop text (i + 1) codepoints
         else Utf8ToCodepoints_loop text (i + char_len) (codepoints @ [decode_at text i char_len]))
      else codepoints)"
  by pat_completeness auto
termination
  by (relation "measure (\<lambda>(text, i, codepoints). length text - i)")
     (auto simp: Utf8CharLength_pos intro: diff_less_mono2)

declare Utf8ToCodepoints_loop.simps [simp del]

definition Utf8ToCodepoints :: "byte list \<Rightarrow> codepoint list" where
  "Utf8ToCodepoints text = Utf8ToCodepoints_loop text 0 []"

subsection \<open>Encoding\<close>

text \<open>The body of the loop of \<open>CodepointsToUtf8\<close>; each cast to \<open>char\<close> keeps the low 8 bits.\<close>

definition append_codepoint :: "byte list \<Rightarrow> codepoint \<Rightarrow> byte list" where
  "append_codepoint result codepoint =
     (if codepoint \<le> kUnicodeMaxOneByte then result @ [ucast codepoint]
      else if codepoint \<le> kUnicodeMaxTwoByte then
        result @ [ucast (ucast kUtf8TwoBytePattern OR drop_bit kUtf8Shift6 codepoint),
                  ucast (ucast kUtf8ContinuationPattern OR (codepoint AND ucast kUtf8ContinuationMask))]
      else if codepoint \<le> kUnicodeMaxThreeByte then
        result @ [ucast (ucast kUtf8ThreeBytePattern OR drop_bit kUtf8Shift12 codepoint),
                  ucast (ucast kUtf8ContinuationPattern OR
                         (drop_bit kUtf8Shift6 codepoint AND ucast kUtf8ContinuationMask)),
                  ucast (ucast kUtf8ContinuationPattern OR (codepoint AND ucast kUtf8ContinuationMask))]
      else if codepoint \<le> kUnicodeMaxCodepoint then
        result @ [ucast (ucast kUtf8FourBytePattern OR drop_bit kUtf8Shift18 codepoint),
                  ucast (ucast kUtf8ContinuationPattern OR
                         (drop_bit kUtf8Shift12 codepoint AND ucast kUtf8ContinuationMask)),
                  ucast (ucast kUtf8ContinuationPattern OR
                         (drop_bit kUtf8Shift6 codepoint AND ucast kUtf8ContinuationMask)),
                  ucast (ucast kUtf8ContinuationPattern OR (codepoint AND ucast kUtf8ContinuationMask))]
      else result)"

definition CodepointsToUtf8 :: "codepoint list \<Rightarrow> byte list" where
  "CodepointsToUtf8 codepoints = foldl append_codepoint [] codepoints"

subsection \<open>Uniform n-grams\<close>

text \<open>The loop for \<open>n > 1\<close>; it is entered only with \<open>n \<le> length codepoints\<close>.\<close>

function ngram_loop :: "codepoint list \<Rightarrow> nat \<Rightarrow> nat \<Rightarrow> byte list list \<Rightarrow> byte list list" where
  "ngram_loop codepoints n i ngrams =
     (if i \<le> length codepoints - n then
        ngram_loop codepoints n (i + 1)
          (ngrams @ [CodepointsToUtf8 (take n (drop i codepoints))])
      else ngrams)"
  by pat_completeness auto
termination
  by (relation "measure (\<lambda>(codepoints, n, i, ngrams). length codepoints - n + 1 - i)") auto

declare ngram_loop.simps [simp del]

definition unigram_step :: "byte list list \<Rightarrow> codepoint \<Rightarrow> byte list list" where
  "unigram_step ngrams codepoint = ngrams @ [CodepointsToUtf8 [codepoint]]"

definition GenerateNgrams :: "byte list \<Rightarrow> int \<Rightarrow> byte list list" where
  "GenerateNgrams text n =
     (let codepoints = Utf8ToCodepoints text in
      if codepoints = [] \<or> n \<le> 0 then []
      else if n = 1 then foldl unigram_step [] codepoints
      else if length codepoints < nat n then []
      else ngram_loop codepoints (nat n) 0 [])"

subsection \<open>Hybrid n-grams\<close>

definition IsCJKIdeograph :: "codepoint \<Rightarrow> bool" where
  "IsCJKIdeograph codepoint =
     ((codepoint \<ge> kCjkMainStart \<and> codepoint \<le> kCjkMainEnd) \<or>
      (codepoint \<ge> kCjkExtAStart \<and> codepoint \<le> kCjkExtAEnd) \<or>
      (codepoint \<ge> kCjkExtBStart \<and> codepoint \<le> kCjkExtBEnd) \<or>
      (codepoint \<ge> kCjkExtCStart \<and> codepoint \<le> kCjkExtCEnd) \<or>
      (codepoint \<ge> kCjkExtDStart \<and> codepoint \<le> kCjkExtDEnd) \<or>
      (codepoint \<ge> kCjkCompatStart \<and> codepoint \<le> kCjkCompatEnd))"

text \<open>
  The window sizes are C++ \<open>int\<close>s (here \<open>int\<close>, of which the code receives the values from
  \<open>-2^31\<close> to \<open>2^31 - 1\<close>), the index and the sizes are \<open>size_t\<close>. In \<open>i + kanji_ngram_size\<close>
  the \<open>int\<close> is converted to \<open>size_t\<close> and the sum is taken modulo \<open>2^64\<close>.
\<close>

definition size_t_of_int :: "int \<Rightarrow> nat" where
  "size_t_of_int k = nat (k mod 2 ^ 64)"

definition size_t_add :: "nat \<Rightarrow> nat \<Rightarrow> nat" where
  "size_t_add a b = (a + b) mod 2 ^ 64"

text \<open>
  \<open>std::vector<uint32_t>::reserve\<close> throws \<open>std::length_error\<close> above \<open>max_size()\<close>, which
  is \<open>PTRDIFF_MAX / sizeof(uint32_t)\<close> in libstdc++ on a 64-bit target.
\<close>

datatype cpp_exception = length_error

definition vector_max_size :: nat where
  "vector_max_size = 2 ^ 61 - 1"

text \<open>
  The two inner loops over \<open>j\<close>, for either class: \<open>want\<close> is the class every codepoint
  of the window must have (\<open>True\<close> for the \<open>all_cjk\<close> loop, \<open>False\<close> for \<open>all_non_cjk\<close>).
\<close>

function class_check_loop :: "bool \<Rightarrow> codepoint list \<Rightarrow> nat \<Rightarrow> int \<Rightarrow> int \<Rightarrow> bool" where
  "class_check_loop want codepoints i ngram_size j =
     (if j < ngram_size then
        if IsCJKIdeograph (codepoints ! size_t_add i (size_t_of_int j)) \<noteq> want then False
        else class_check_loop want codepoints i ngram_size (j + 1)
      else True)"
  by pat_completeness auto
termination
  by (relation "measure (\<lambda>(want, codepoints, i, ngram_size, j). nat (ngram_size - j))") auto

declare class_check_loop.simps [simp del]

function copy_window_loop :: "codepoint list \<Rightarrow> nat \<Rightarrow> int \<Rightarrow> int \<Rightarrow> codepoint list \<Rightarrow> codepoint list" where
  "copy_window_loop codepoints i ngram_size j ngram_codepoints =
     (if j < ngram_size then
        copy_window_loop codepoints i ngram_size (j + 1)
          (ngram_codepoints @ [codepoints ! size_t_add i (size_t_of_int j)])
      else ngram_codepoints)"
  by pat_completeness auto
termination
  by (relation "measure (\<lambda>(codepoints, i, ngram_size, j, acc). nat (ngram_size - j))") auto

declare copy_window_loop.simps [simp del]

text \<open>
  One branch of the loop body: the window of \<open>ngram_size\<close> codepoints at \<open>i\<close> if it fits and is of
  the wanted class throughout, \<open>None\<close> if nothing is emitted.
\<close>

definition try_window :: "bool \<Rightarrow> codepoint list \<Rightarrow> nat \<Rightarrow> int \<Rightarrow> cpp_exception + codepoint list option" where
  "try_window want codepoints i ngram_size =
     (if size_t_add i (size_t_of_int ngram_size) \<le> length codepoints then
        if class_check_loop want codepoints i ngram_size 0 then
          if size_t_of_int ngram_size > vector_max_size then Inl length_error
          else Inr (Some (copy_window_loop codepoints i ngram_size 0 []))
        else Inr None
      else Inr None)"

function hybrid_loop ::
  "codepoint list \<Rightarrow> int \<Rightarrow> int \<Rightarrow> nat \<Rightarrow> byte list list \<Rightarrow> cpp_exception + byte list list" where
  "hybrid_loop codepoints ascii_ngram_size kanji_ngram_size i ngrams =
     (if i < length codepoints then
        (case (if IsCJKIdeograph (codepoints ! i)
               then try_window True codepoints i kanji_ngram_size
               else try_window False codepoints i ascii_ngram_size) of
           Inl e \<Rightarrow> Inl e
         | Inr None \<Rightarrow>
             hybrid_loop codepoints ascii_ngram_size kanji_ngram_size (i + 1) ngrams
         | Inr (Some ngram_codepoints) \<Rightarrow>
             hybrid_loop codepoints ascii_ngram_size kanji_ngram_size (i + 1)
               (ngrams @ [CodepointsToUtf8 ngram_codepoints]))
      else Inr ngrams)"
  by pat_completeness auto
termination
  by (relation "measure (\<lambda>(codepoints, a, k, i, ngrams). length codepoints - i)") auto

declare hybrid_loop.simps [simp del]

definition GenerateHybridNgrams :: "byte list \<Rightarrow> int \<Rightarrow> int \<Rightarrow> cpp_exception + byte list list" where
  "GenerateHybridNgrams text ascii_ngram_size kanji_ngram_size =
     (let codepoints = Utf8ToCodepoints text in
      if codepoints = [] then Inr []
      else hybrid_loop codepoints ascii_ngram_size kanji_ngram_size 0 [])"

subsection \<open>Well-formed UTF-8\<close>

text \<open>
  The byte sequences that the Unicode Standard calls well-formed UTF-8 (its table of
  well-formed byte sequences): no overlong form, no surrogate, nothing above \<open>U+10FFFF\<close>.
  This is the hypothesis of the round trip, not a function of the program.
\<close>

definition in_range :: "byte \<Rightarrow> byte \<Rightarrow> byte \<Rightarrow> bool" where
  "in_range lo hi b = (lo \<le> b \<and> b \<le> hi)"

definition second_of_three :: "byte \<Rightarrow> byte \<Rightarrow> bool" where
  "second_of_three b0 b1 =
     (if b0 = 0xE0 then in_range 0xA0 0xBF b1
      else if b0 = 0xED then in_range 0x80 0x9F b1
      else in_range 0x80 0xBF b1)"

definition second_of_four :: "byte \<Rightarrow> byte \<Rightarrow> bool" where
  "second_of_four b0 b1 =
     (if b0 = 0xF0 then in_range 0x90 0xBF b1
      else if b0 = 0xF4 then in_range 0x80 0x8F b1
      else in_range 0x80 0xBF b1)"

fun well_formed_utf8 :: "byte list \<Rightarrow> bool" where
  "well_formed_utf8 [] = True"
| "well_formed_utf8 (b0 # rest) =
     (if b0 \<le> 0x7F then well_formed_utf8 rest
      else if in_range 0xC2 0xDF b0 then
        (case rest of
           b1 # rest' \<Rightarrow> in_range 0x80 0xBF b1 \<and> well_formed_utf8 rest'
         | _ \<Rightarrow> False)
      else if in_range 0xE0 0xEF b0 then
        (case rest of
           b1 # b2 # rest' \<Rightarrow>
             second_of_three b0 b1 \<and> in_range 0x80 0xBF b2 \<and> well_formed_utf8 rest'
         | _ \<Rightarrow> False)
      else if in_range 0xF0 0xF4 b0 then
        (case rest of
           b1 # b2 # b3 # rest' \<Rightarrow>
             second_of_four b0 b1 \<and> in_range 0x80 0xBF b2 \<and> in_range 0x80 0xBF b3 \<and>
             well_formed_utf8 rest'
         | _ \<Rightarrow> False)
      else False)"

subsection \<open>Byte strings written as text\<close>

definition bytes_of :: "string \<Rightarrow> byte list" where
  "bytes_of s = map of_char s"

section \<open>Auxiliary notions for the proofs\<close>

text \<open>An excluded term that follows a non-empty accumulator in \<open>ToQueryString\<close>.\<close>

definition and_not :: "string \<Rightarrow> string" where
  "and_not term = '' AND NOT '' @ term"

text \<open>A required term that follows an earlier one in \<open>ToQueryString\<close>.\<close>

definition and_term :: "string \<Rightarrow> string" where
  "and_term term = '' AND '' @ term"





text \<open>The four shapes of \<open>append_codepoint\<close>, with the constants unfolded.\<close>

definition enc2 :: "codepoint \<Rightarrow> byte list" where
  "enc2 c = [ucast (0xC0 OR drop_bit 6 c), ucast (0x80 OR (c AND 0x3F))]"

definition enc3 :: "codepoint \<Rightarrow> byte list" where
  "enc3 c = [ucast (0xE0 OR drop_bit 12 c), ucast (0x80 OR (drop_bit 6 c AND 0x3F)),
             ucast (0x80 OR (c AND 0x3F))]"

definition enc4 :: "codepoint \<Rightarrow> byte list" where
  "enc4 c = [ucast (0xF0 OR drop_bit 18 c), ucast (0x80 OR (drop_bit 12 c AND 0x3F)),
             ucast (0x80 OR (drop_bit 6 c AND 0x3F)), ucast (0x80 OR (c AND 0x3F))]"

text \<open>The codepoints that \<open>decode_at\<close> assembles from two, three and four bytes.\<close>

definition dec2 :: "byte \<Rightarrow> byte \<Rightarrow> codepoint" where
  "dec2 b0 b1 = push_bit 6 (ucast (b0 AND 0x1F)) OR ucast (b1 AND 0x3F)"

definition dec3 :: "byte \<Rightarrow> byte \<Rightarrow> byte \<Rightarrow> codepoint" where
  "dec3 b0 b1 b2 =
     push_bit 12 (ucast (b0 AND 0x0F)) OR push_bit 6 (ucast (b1 AND 0x3F)) OR ucast (b2 AND 0x3F)"

definition dec4 :: "byte \<Rightarrow> byte \<Rightarrow> byte \<Rightarrow> byte \<Rightarrow> codepoint" where
  "dec4 b0 b1 b2 b3 =
     push_bit 18 (ucast (b0 AND 0x07)) OR push_bit 12 (ucast (b1 AND 0x3F)) OR
     push_bit 6 (ucast (b2 AND 0x3F)) OR ucast (b3 AND 0x3F)"

text \<open>The window that the loop body emits at \<open>i\<close>, if any.\<close>

definition window_at :: "codepoint list \<Rightarrow> nat \<Rightarrow> nat \<Rightarrow> nat \<Rightarrow> codepoint list option" where
  "window_at cps a k i =
     (let n = (if IsCJKIdeograph (cps ! i) then k else a);
          w = take n (drop i cps)
      in if i + n \<le> length cps \<and> (\<forall>c \<in> set w. IsCJKIdeograph c = IsCJKIdeograph (cps ! i))
         then Some w else None)"


section \<open>Properties of the query string emitter\<close>

lemma foldl_excluded_step_nonempty:
  "oss \<noteq> [] \<Longrightarrow>
     foldl excluded_step oss ts = oss @ concat (map and_not ts)"
proof (induction ts arbitrary: oss)
  case Nil
  then show ?case by simp
next
  case (Cons t ts)
  have "excluded_step oss t \<noteq> []" by (simp add: excluded_step_def)
  then show ?case using Cons by (simp add: excluded_step_def and_not_def)
qed

lemma foldl_excluded_step_empty:
  "foldl excluded_step [] (t # ts) = ''NOT '' @ t @ concat (map and_not ts)"
proof -
  have "excluded_step [] t = ''NOT '' @ t" by (simp add: excluded_step_def)
  moreover have "''NOT '' @ t \<noteq> []" by simp
  ultimately show ?thesis
    using foldl_excluded_step_nonempty [of "''NOT '' @ t" ts] by simp
qed

lemma foldl_required_step_from:
  "0 < i \<Longrightarrow> i \<le> length terms \<Longrightarrow>
     foldl (required_step terms) oss [i ..< length terms] = oss @ concat (map and_term (drop i terms))"
proof (induction "length terms - i" arbitrary: i oss)
  case 0
  then show ?case by simp
next
  case (Suc k)
  then have lt: "i < length terms" by simp
  have up: "[i ..< length terms] = i # [Suc i ..< length terms]"
    using lt by (rule upt_conv_Cons)
  have dr: "drop i terms = terms ! i # drop (Suc i) terms"
    using lt by (simp add: Cons_nth_drop_Suc)
  have st: "required_step terms oss i = oss @ and_term (terms ! i)"
    using Suc.prems(1) by (simp add: required_step_def and_term_def)
  have "foldl (required_step terms) (required_step terms oss i) [Suc i ..< length terms] =
          required_step terms oss i @ concat (map and_term (drop (Suc i) terms))"
    using Suc.hyps(2) lt by (intro Suc.hyps(1)) simp_all
  then have "foldl (required_step terms) (oss @ and_term (terms ! i)) [Suc i ..< length terms] =
          oss @ and_term (terms ! i) @ concat (map and_term (drop (Suc i) terms))"
    unfolding st by simp
  then show ?case unfolding up dr by (simp add: st)
qed

lemma foldl_required_step:
  "foldl (required_step (r # rs)) [] [0 ..< length (r # rs)] = r @ concat (map and_term rs)"
proof -
  have up: "[0 ..< length (r # rs)] = 0 # [1 ..< length (r # rs)]"
    using upt_conv_Cons [of 0 "length (r # rs)"] by simp
  have "foldl (required_step (r # rs)) r [1 ..< length (r # rs)] =
          r @ concat (map and_term (drop 1 (r # rs)))"
    by (rule foldl_required_step_from) simp_all
  then show ?thesis unfolding up by (simp add: required_step_def)
qed

lemma foldl_excluded_step:
  "foldl excluded_step oss ts =
     (if oss = [] then (case ts of [] \<Rightarrow> [] | t # ts' \<Rightarrow> ''NOT '' @ t @ concat (map and_not ts'))
      else oss @ concat (map and_not ts))"
proof (cases "oss = []")
  case True
  show ?thesis
  proof (cases ts)
    case Nil
    then show ?thesis using True by simp
  next
    case (Cons t ts')
    then show ?thesis
      using True foldl_excluded_step_empty [of t ts'] by (simp del: foldl_Cons)
  qed
next
  case False
  then show ?thesis by (simp add: foldl_excluded_step_nonempty)
qed

section \<open>Properties of the parser\<close>










section \<open>Properties of the UTF-8 codec\<close>

subsection \<open>The encoder as a concatenation\<close>

lemma append_codepoint_append:
  "append_codepoint result c = result @ append_codepoint [] c"
  by (simp add: append_codepoint_def)

lemma foldl_append_codepoint:
  "foldl append_codepoint result cs = result @ concat (map (append_codepoint []) cs)"
proof (induction cs arbitrary: result)
  case Nil
  show ?case by simp
next
  case (Cons c cs)
  have "foldl append_codepoint result (c # cs) = foldl append_codepoint (append_codepoint result c) cs"
    by simp
  also have "\<dots> = append_codepoint result c @ concat (map (append_codepoint []) cs)"
    by (rule Cons.IH)
  also have "\<dots> = (result @ append_codepoint [] c) @ concat (map (append_codepoint []) cs)"
    by (simp only: append_codepoint_append [of result c])
  finally show ?case by simp
qed

lemma CodepointsToUtf8_concat:
  "CodepointsToUtf8 cs = concat (map (append_codepoint []) cs)"
  by (simp add: CodepointsToUtf8_def foldl_append_codepoint)

lemma CodepointsToUtf8_Nil: "CodepointsToUtf8 [] = []"
  by (simp add: CodepointsToUtf8_concat)

lemma CodepointsToUtf8_Cons:
  "CodepointsToUtf8 (c # cs) = append_codepoint [] c @ CodepointsToUtf8 cs"
  by (simp add: CodepointsToUtf8_concat)

subsection \<open>The decoder on the rest of the text\<close>

lemma decode_at_drop:
  assumes "i + n \<le> length text" "0 < n"
  shows "decode_at text i n = decode_at (drop i text) 0 n"
proof -
  have "\<And>k. k < n \<Longrightarrow> drop i text ! k = text ! (i + k)"
    using assms by simp
  then show ?thesis
    using assms by (auto simp: decode_at_def Let_def)
qed

lemma Utf8ToCodepoints_loop_drop:
  "Utf8ToCodepoints_loop text i acc = acc @ Utf8ToCodepoints (drop i text)"
proof (induction "length text - i" arbitrary: "text" i acc rule: less_induct)
  case less
  show ?case
  proof (cases "i < length text")
    case False
    then show ?thesis
      by (simp add: Utf8ToCodepoints_def Utf8ToCodepoints_loop.simps [of "text" i]
                    Utf8ToCodepoints_loop.simps [of "[]" 0])
  next
    case inside: True
    define rest where "rest = drop i text"
    define n where "n = Utf8CharLength (text ! i)"
    have hd: "rest ! 0 = text ! i" using inside by (simp add: rest_def)
    have len: "length rest = length text - i" by (simp add: rest_def)
    have ne: "0 < length rest" using inside len by simp
    have pos: "0 < n" unfolding n_def by (rule Utf8CharLength_pos)
    have n': "Utf8CharLength (rest ! 0) = n" by (simp add: hd n_def)
    show ?thesis
    proof (cases "i + n > length text")
      case skip: True
      then have skip': "0 + n > length rest" using len inside by simp
      have l: "Utf8ToCodepoints_loop text i acc = Utf8ToCodepoints_loop text (i + 1) acc"
        using inside skip by (subst Utf8ToCodepoints_loop.simps) (simp add: Let_def n_def)
      have r: "Utf8ToCodepoints rest = Utf8ToCodepoints_loop rest 1 []"
        unfolding Utf8ToCodepoints_def
        using ne skip' n' by (subst Utf8ToCodepoints_loop.simps) (simp add: Let_def)
      have "Utf8ToCodepoints_loop text (i + 1) acc = acc @ Utf8ToCodepoints (drop (i + 1) text)"
        using inside by (intro less) simp
      moreover have "Utf8ToCodepoints_loop rest 1 [] = [] @ Utf8ToCodepoints (drop 1 rest)"
        using inside len by (intro less) simp
      moreover have "drop 1 rest = drop (i + 1) text" by (simp add: rest_def)
      ultimately show ?thesis using l r by (simp add: rest_def)
    next
      case take: False
      then have take': "\<not> 0 + n > length rest" using len inside by simp
      define c where "c = decode_at text i n"
      have c: "decode_at rest 0 n = c"
        using take pos decode_at_drop [of i n "text"] by (simp add: rest_def c_def)
      have l: "Utf8ToCodepoints_loop text i acc = Utf8ToCodepoints_loop text (i + n) (acc @ [c])"
        using inside take
        by (subst Utf8ToCodepoints_loop.simps) (simp add: Let_def n_def c_def)
      have r: "Utf8ToCodepoints rest = Utf8ToCodepoints_loop rest n [c]"
        unfolding Utf8ToCodepoints_def
        using ne take' n' c by (subst Utf8ToCodepoints_loop.simps) (simp add: Let_def)
      have "Utf8ToCodepoints_loop text (i + n) (acc @ [c])
              = (acc @ [c]) @ Utf8ToCodepoints (drop (i + n) text)"
        using inside pos by (intro less) simp
      moreover have "Utf8ToCodepoints_loop rest n [c] = [c] @ Utf8ToCodepoints (drop n rest)"
        using inside pos len by (intro less) simp
      moreover have "drop n rest = drop (i + n) text" by (simp add: rest_def add.commute)
      ultimately show ?thesis using l r by (simp add: rest_def)
    qed
  qed
qed

lemma Utf8ToCodepoints_Nil: "Utf8ToCodepoints [] = []"
  by (simp add: Utf8ToCodepoints_def Utf8ToCodepoints_loop.simps [of "[]" 0])

lemma Utf8ToCodepoints_skip:
  assumes "Utf8CharLength b > Suc (length bs)"
  shows "Utf8ToCodepoints (b # bs) = Utf8ToCodepoints bs"
proof -
  have "Utf8ToCodepoints (b # bs) = Utf8ToCodepoints_loop (b # bs) 1 []"
    unfolding Utf8ToCodepoints_def
    using assms by (subst Utf8ToCodepoints_loop.simps) (simp add: Let_def)
  then show ?thesis by (simp add: Utf8ToCodepoints_loop_drop)
qed

lemma Utf8ToCodepoints_take:
  assumes "Utf8CharLength b \<le> Suc (length bs)"
  shows "Utf8ToCodepoints (b # bs) =
           decode_at (b # bs) 0 (Utf8CharLength b) # Utf8ToCodepoints (drop (Utf8CharLength b) (b # bs))"
proof -
  have "Utf8ToCodepoints (b # bs) =
          Utf8ToCodepoints_loop (b # bs) (Utf8CharLength b) [decode_at (b # bs) 0 (Utf8CharLength b)]"
    unfolding Utf8ToCodepoints_def
    using assms by (subst Utf8ToCodepoints_loop.simps) (simp add: Let_def)
  then show ?thesis by (simp add: Utf8ToCodepoints_loop_drop)
qed

subsection \<open>Uniform n-grams as a list of windows\<close>

lemma ngram_loop_eq:
  assumes "n \<le> length cs"
  shows "i \<le> length cs - n + 1 \<Longrightarrow>
     ngram_loop cs n i acc =
       acc @ map (\<lambda>k. CodepointsToUtf8 (take n (drop k cs))) [i ..< length cs - n + 1]"
proof (induction cs n i acc rule: ngram_loop.induct)
  case (1 cs n i acc)
  show ?case
  proof (cases "i \<le> length cs - n")
    case True
    have "[i ..< length cs - n + 1] = i # [i + 1 ..< length cs - n + 1]"
      using True by (simp add: upt_conv_Cons)
    then show ?thesis
      using True "1.IH" [OF True] by (subst ngram_loop.simps) simp
  next
    case False
    then have "i = length cs - n + 1" using "1.prems" by simp
    then show ?thesis by (subst ngram_loop.simps) simp
  qed
qed

lemma foldl_unigram_step:
  "foldl unigram_step acc cs = acc @ map (\<lambda>c. CodepointsToUtf8 [c]) cs"
  by (induction cs arbitrary: acc) (simp_all add: unigram_step_def)

lemma map_singletons_windows:
  "map (\<lambda>c. f [c]) cs = map (\<lambda>k. f (take 1 (drop k cs))) [0 ..< length cs]"
proof (rule nth_equalityI)
  show "length (map (\<lambda>c. f [c]) cs) = length (map (\<lambda>k. f (take 1 (drop k cs))) [0 ..< length cs])"
    by simp
next
  fix i assume "i < length (map (\<lambda>c. f [c]) cs)"
  then have i: "i < length cs" by simp
  then have "take 1 (drop i cs) = [cs ! i]"
    by (simp add: take_Suc_conv_app_nth [of 0] hd_drop_conv_nth Cons_nth_drop_Suc [symmetric])
  then show "map (\<lambda>c. f [c]) cs ! i = map (\<lambda>k. f (take 1 (drop k cs))) [0 ..< length cs] ! i"
    using i by simp
qed

subsection \<open>Bits of the constants\<close>

lemma bit_0x80: "bit (0x80 :: int) n \<longleftrightarrow> n = 7"
proof -
  have "bit (2 ^ 7 :: int) n \<longleftrightarrow> n = 7"
    by (simp only: bit_exp_iff) simp
  then show ?thesis by simp
qed

lemma bit_0xC0: "bit (0xC0 :: int) n \<longleftrightarrow> n = 6 \<or> n = 7"
proof -
  have h: "(0xC0 :: int) = push_bit 6 (mask 2)" by (simp add: push_bit_eq_mult mask_eq_exp_minus_1)
  show ?thesis by (subst h) (auto simp: bit_simps)
qed

lemma bit_0xE0: "bit (0xE0 :: int) n \<longleftrightarrow> n = 5 \<or> n = 6 \<or> n = 7"
proof -
  have h: "(0xE0 :: int) = push_bit 5 (mask 3)" by (simp add: push_bit_eq_mult mask_eq_exp_minus_1)
  show ?thesis by (subst h) (auto simp: bit_simps)
qed

lemma bit_0xF0: "bit (0xF0 :: int) n \<longleftrightarrow> 4 \<le> n \<and> n \<le> 7"
proof -
  have h: "(0xF0 :: int) = push_bit 4 (mask 4)" by (simp add: push_bit_eq_mult mask_eq_exp_minus_1)
  show ?thesis by (subst h) (auto simp: bit_simps)
qed

lemma bit_0xF8: "bit (0xF8 :: int) n \<longleftrightarrow> 3 \<le> n \<and> n \<le> 7"
proof -
  have h: "(0xF8 :: int) = push_bit 3 (mask 5)" by (simp add: push_bit_eq_mult mask_eq_exp_minus_1)
  show ?thesis by (subst h) (auto simp: bit_simps)
qed

lemma bit_0x3F: "bit (0x3F :: int) n \<longleftrightarrow> n < 6"
proof -
  have h: "(0x3F :: int) = mask 6" by (simp add: mask_eq_exp_minus_1)
  show ?thesis by (subst h) (auto simp: bit_simps)
qed

lemma bit_0x1F: "bit (0x1F :: int) n \<longleftrightarrow> n < 5"
proof -
  have h: "(0x1F :: int) = mask 5" by (simp add: mask_eq_exp_minus_1)
  show ?thesis by (subst h) (auto simp: bit_simps)
qed

lemma bit_0x0F: "bit (0x0F :: int) n \<longleftrightarrow> n < 4"
proof -
  have h: "(0x0F :: int) = mask 4" by (simp add: mask_eq_exp_minus_1)
  show ?thesis by (subst h) (auto simp: bit_simps)
qed

lemma bit_0x07: "bit (0x07 :: int) n \<longleftrightarrow> n < 3"
proof -
  have h: "(0x07 :: int) = mask 3" by (simp add: mask_eq_exp_minus_1)
  show ?thesis by (subst h) (auto simp: bit_simps)
qed

lemmas const_bits =
  bit_0x80 bit_0xC0 bit_0xE0 bit_0xF0 bit_0xF8 bit_0x3F bit_0x1F bit_0x0F bit_0x07

subsection \<open>Bounds and bits\<close>

lemma bit_below:
  fixes c :: "'a::len word"
  assumes "c < 2 ^ k" "bit c n"
  shows "n < k"
proof -
  have "c AND mask k = c" using assms(1) by (rule less_mask_eq)
  then have "bit (c AND mask k) n" using assms(2) by simp
  then show ?thesis by (simp add: bit_simps)
qed

lemma below_if_bits:
  fixes c :: "'a::len word"
  assumes "\<And>n. bit c n \<Longrightarrow> n < k" "k < LENGTH('a)"
  shows "c < 2 ^ k"
proof -
  have "take_bit k c = c"
    by (rule bit_word_eqI) (auto simp: bit_simps dest: assms(1))
  then show ?thesis
    using assms(2)
    by (metis exp_eq_zero_iff take_bit_eq_mod verit_comp_simplify1(3) word_gt_0
        word_mod_less_divisor)
qed

lemma byte_bit_unat: "bit (b :: byte) n \<longleftrightarrow> odd (unat b div 2 ^ n)"
proof -
  have "bit (unat b) n \<longleftrightarrow> bit b n"
    by (simp add: bit_unsigned_iff)
  then show ?thesis using bit_iff_odd by blast
qed

subsection \<open>The length class of a first byte, by its bits\<close>

lemma less_8_cases: "(n::nat) < 8 \<longleftrightarrow> n \<in> {0, 1, 2, 3, 4, 5, 6, 7}"
  by auto

lemma all_less_8:
  "(\<forall>n<8. P n) \<longleftrightarrow> P 0 \<and> P 1 \<and> P 2 \<and> P 3 \<and> P 4 \<and> P 5 \<and> P 6 \<and> P (7::nat)"
proof
  assume "\<forall>n<8. P n"
  then show "P 0 \<and> P 1 \<and> P 2 \<and> P 3 \<and> P 4 \<and> P 5 \<and> P 6 \<and> P 7" by simp
next
  assume r: "P 0 \<and> P 1 \<and> P 2 \<and> P 3 \<and> P 4 \<and> P 5 \<and> P 6 \<and> P 7"
  show "\<forall>n<8. P n"
  proof (intro allI impI)
    fix n :: nat
    assume "n < 8"
    then have "n \<in> {0, 1, 2, 3, 4, 5, 6, 7}"
      by (simp only: less_8_cases)
    then show "P n" using r by auto
  qed
qed

lemma byte_eq_iff:
  "(a :: byte) = b \<longleftrightarrow>
     bit a 0 = bit b 0 \<and> bit a 1 = bit b 1 \<and> bit a 2 = bit b 2 \<and> bit a 3 = bit b 3 \<and>
     bit a 4 = bit b 4 \<and> bit a 5 = bit b 5 \<and> bit a 6 = bit b 6 \<and> bit a 7 = bit b 7"
proof -
  have "a = b \<longleftrightarrow> (\<forall>n<8. bit a n = bit b n)"
    by (auto simp: bit_eq_iff dest: bit_imp_le_length)
  then show ?thesis by (simp only: all_less_8)
qed

lemma and_0x80_iff: "(b :: byte) AND 0x80 = 0 \<longleftrightarrow> \<not> bit b 7"
  by (simp add: byte_eq_iff bit_simps const_bits)

lemma and_0xE0_iff: "(b :: byte) AND 0xE0 = 0xC0 \<longleftrightarrow> bit b 7 \<and> bit b 6 \<and> \<not> bit b 5"
  by (auto simp: byte_eq_iff bit_simps const_bits)

lemma and_0xF0_iff:
  "(b :: byte) AND 0xF0 = 0xE0 \<longleftrightarrow> bit b 7 \<and> bit b 6 \<and> bit b 5 \<and> \<not> bit b 4"
  by (auto simp: byte_eq_iff bit_simps const_bits)

lemma and_0xF8_iff:
  "(b :: byte) AND 0xF8 = 0xF0 \<longleftrightarrow> bit b 7 \<and> bit b 6 \<and> bit b 5 \<and> bit b 4 \<and> \<not> bit b 3"
  by (auto simp: byte_eq_iff bit_simps const_bits)

lemma Utf8CharLength_bits:
  "Utf8CharLength b =
     (if \<not> bit b 7 then 1
      else if bit b 6 \<and> \<not> bit b 5 then 2
      else if bit b 6 \<and> bit b 5 \<and> \<not> bit b 4 then 3
      else if bit b 6 \<and> bit b 5 \<and> bit b 4 \<and> \<not> bit b 3 then 4
      else 1)"
  by (simp add: Utf8CharLength_def utf8_constants and_0x80_iff and_0xE0_iff and_0xF0_iff and_0xF8_iff)

subsection \<open>Encoding one codepoint, then decoding it\<close>

lemma le_0x7F: "(c :: codepoint) \<le> 0x7F \<Longrightarrow> c < 2 ^ 7"
  by (simp add: word_le_nat_alt word_less_nat_alt)

lemma le_0x7FF: "(c :: codepoint) \<le> 0x7FF \<Longrightarrow> c < 2 ^ 11"
  by (simp add: word_le_nat_alt word_less_nat_alt)

lemma le_0xFFFF: "(c :: codepoint) \<le> 0xFFFF \<Longrightarrow> c < 2 ^ 16"
  by (simp add: word_le_nat_alt word_less_nat_alt)

lemma le_0x10FFFF: "(c :: codepoint) \<le> 0x10FFFF \<Longrightarrow> c < 2 ^ 21"
  by (simp add: word_le_nat_alt word_less_nat_alt)

lemma append_codepoint_cases:
  "append_codepoint [] c =
     (if c \<le> 0x7F then [ucast c]
      else if c \<le> 0x7FF then enc2 c
      else if c \<le> 0xFFFF then enc3 c
      else if c \<le> 0x10FFFF then enc4 c
      else [])"
  by (simp add: append_codepoint_def utf8_constants enc2_def enc3_def enc4_def)

lemma decode_at_1: "decode_at (b0 # bs) 0 (Suc 0) = ucast b0"
  by (simp add: decode_at_def)

lemma decode_at_2: "decode_at (b0 # b1 # bs) 0 2 = dec2 b0 b1"
  by (simp add: decode_at_def utf8_constants dec2_def)

lemma decode_at_3: "decode_at (b0 # b1 # b2 # bs) 0 3 = dec3 b0 b1 b2"
  by (simp add: decode_at_def utf8_constants dec3_def)

lemma decode_at_4: "decode_at (b0 # b1 # b2 # b3 # bs) 0 4 = dec4 b0 b1 b2 b3"
  by (simp add: decode_at_def utf8_constants dec4_def)

lemma cont_roundtrip:
  "ucast ((ucast (0x80 OR (x AND 0x3F)) :: byte) AND 0x3F) = (take_bit 6 x :: codepoint)"
  by (rule bit_word_eqI) (auto simp: bit_simps const_bits)

lemma lead2_roundtrip:
  "ucast ((ucast (0xC0 OR x) :: byte) AND 0x1F) = (take_bit 5 x :: codepoint)"
  by (rule bit_word_eqI) (auto simp: bit_simps const_bits)

lemma lead3_roundtrip:
  "ucast ((ucast (0xE0 OR x) :: byte) AND 0x0F) = (take_bit 4 x :: codepoint)"
  by (rule bit_word_eqI) (auto simp: bit_simps const_bits)

lemma lead4_roundtrip:
  "ucast ((ucast (0xF0 OR x) :: byte) AND 0x07) = (take_bit 3 x :: codepoint)"
  by (rule bit_word_eqI) (auto simp: bit_simps const_bits)

lemma enc1_length: "c \<le> 0x7F \<Longrightarrow> Utf8CharLength (ucast (c :: codepoint)) = 1"
  by (auto simp: Utf8CharLength_bits bit_simps dest: bit_below [OF le_0x7F])

lemma enc1_decode: "c \<le> 0x7F \<Longrightarrow> ucast (ucast (c :: codepoint) :: byte) = c"
  by (rule bit_word_eqI) (auto simp: bit_simps dest: bit_below [OF le_0x7F])

lemma enc2_length: "c \<le> 0x7FF \<Longrightarrow> Utf8CharLength (hd (enc2 c)) = 2"
  by (auto simp: enc2_def Utf8CharLength_bits bit_simps const_bits dest: bit_below [OF le_0x7FF])

lemma enc2_decode: "c \<le> 0x7FF \<Longrightarrow> dec2 (enc2 c ! 0) (enc2 c ! 1) = c"
proof -
  assume c: "c \<le> 0x7FF"
  have "dec2 (enc2 c ! 0) (enc2 c ! 1) = push_bit 6 (take_bit 5 (drop_bit 6 c)) OR take_bit 6 c"
    by (simp only: enc2_def dec2_def nth_Cons_0 nth_Cons_Suc One_nat_def cont_roundtrip
                   lead2_roundtrip)
  also have "\<dots> = c"
    by (rule bit_word_eqI) (auto simp: bit_simps dest: bit_below [OF le_0x7FF [OF c]])
  finally show ?thesis .
qed

lemma enc3_length: "c \<le> 0xFFFF \<Longrightarrow> Utf8CharLength (hd (enc3 c)) = 3"
  by (auto simp: enc3_def Utf8CharLength_bits bit_simps const_bits dest: bit_below [OF le_0xFFFF])

lemma enc3_decode: "c \<le> 0xFFFF \<Longrightarrow> dec3 (enc3 c ! 0) (enc3 c ! 1) (enc3 c ! 2) = c"
proof -
  assume c: "c \<le> 0xFFFF"
  have "dec3 (enc3 c ! 0) (enc3 c ! 1) (enc3 c ! 2) =
          push_bit 12 (take_bit 4 (drop_bit 12 c)) OR push_bit 6 (take_bit 6 (drop_bit 6 c)) OR
          take_bit 6 c"
    by (simp only: enc3_def dec3_def nth_Cons_0 nth_Cons_Suc One_nat_def numeral_2_eq_2
                   cont_roundtrip lead3_roundtrip)
  also have "\<dots> = c"
  proof (rule bit_word_eqI)
    fix n :: nat
    assume "n < LENGTH(32)"
    consider "n < 6" | "6 \<le> n" "n < 12" | "12 \<le> n"
      by linarith
    then show "bit (push_bit 12 (take_bit 4 (drop_bit 12 c)) OR
                    push_bit 6 (take_bit 6 (drop_bit 6 c)) OR take_bit 6 c) n = bit c n"
      by cases (auto simp: bit_simps dest: bit_below [OF le_0xFFFF [OF c]])
  qed
  finally show ?thesis .
qed

lemma enc4_length: "c \<le> 0x10FFFF \<Longrightarrow> Utf8CharLength (hd (enc4 c)) = 4"
  by (auto simp: enc4_def Utf8CharLength_bits bit_simps const_bits dest: bit_below [OF le_0x10FFFF])

lemma enc4_decode:
  "c \<le> 0x10FFFF \<Longrightarrow> dec4 (enc4 c ! 0) (enc4 c ! 1) (enc4 c ! 2) (enc4 c ! 3) = c"
proof -
  assume c: "c \<le> 0x10FFFF"
  have "dec4 (enc4 c ! 0) (enc4 c ! 1) (enc4 c ! 2) (enc4 c ! 3) =
          push_bit 18 (take_bit 3 (drop_bit 18 c)) OR push_bit 12 (take_bit 6 (drop_bit 12 c)) OR
          push_bit 6 (take_bit 6 (drop_bit 6 c)) OR take_bit 6 c"
    by (simp only: enc4_def dec4_def nth_Cons_0 nth_Cons_Suc One_nat_def numeral_2_eq_2
                   numeral_3_eq_3 cont_roundtrip lead4_roundtrip)
  also have "\<dots> = c"
  proof (rule bit_word_eqI)
    fix n :: nat
    assume "n < LENGTH(32)"
    consider "n < 6" | "6 \<le> n" "n < 12" | "12 \<le> n" "n < 18" | "18 \<le> n"
      by linarith
    then show "bit (push_bit 18 (take_bit 3 (drop_bit 18 c)) OR
                    push_bit 12 (take_bit 6 (drop_bit 12 c)) OR
                    push_bit 6 (take_bit 6 (drop_bit 6 c)) OR take_bit 6 c) n = bit c n"
      by cases (auto simp: bit_simps dest: bit_below [OF le_0x10FFFF [OF c]])
  qed
  finally show ?thesis .
qed

lemma decode_encode_one:
  assumes "c \<le> 0x10FFFF"
  shows "Utf8ToCodepoints (append_codepoint [] c @ rest) = c # Utf8ToCodepoints rest"
proof -
  consider (one) "c \<le> 0x7F"
    | (two) "\<not> c \<le> 0x7F" "c \<le> 0x7FF"
    | (three) "\<not> c \<le> 0x7F" "\<not> c \<le> 0x7FF" "c \<le> 0xFFFF"
    | (four) "\<not> c \<le> 0x7F" "\<not> c \<le> 0x7FF" "\<not> c \<le> 0xFFFF"
    by blast
  then show ?thesis
  proof cases
    case one
    have "Utf8ToCodepoints (ucast c # rest) =
            decode_at (ucast c # rest) 0 1 # Utf8ToCodepoints (drop 1 (ucast c # rest))"
      using Utf8ToCodepoints_take [of "ucast c" rest] enc1_length [OF one] by simp
    then show ?thesis
      using one by (simp add: append_codepoint_cases decode_at_1 enc1_decode)
  next
    case two
    obtain b0 b1 where e: "enc2 c = [b0, b1]" by (simp add: enc2_def)
    have len: "Utf8CharLength b0 = 2" using enc2_length [OF two(2)] e by simp
    have dec: "dec2 b0 b1 = c" using enc2_decode [OF two(2)] e by simp
    have "Utf8ToCodepoints (b0 # b1 # rest) =
            decode_at (b0 # b1 # rest) 0 2 # Utf8ToCodepoints (drop 2 (b0 # b1 # rest))"
      using Utf8ToCodepoints_take [of b0 "b1 # rest"] len by simp
    then show ?thesis
      using two e by (simp add: append_codepoint_cases decode_at_2 dec)
  next
    case three
    obtain b0 b1 b2 where e: "enc3 c = [b0, b1, b2]" by (simp add: enc3_def)
    have len: "Utf8CharLength b0 = 3" using enc3_length [OF three(3)] e by simp
    have dec: "dec3 b0 b1 b2 = c" using enc3_decode [OF three(3)] e by simp
    have "Utf8ToCodepoints (b0 # b1 # b2 # rest) =
            decode_at (b0 # b1 # b2 # rest) 0 3 # Utf8ToCodepoints (drop 3 (b0 # b1 # b2 # rest))"
      using Utf8ToCodepoints_take [of b0 "b1 # b2 # rest"] len by simp
    then show ?thesis
      using three e by (simp add: append_codepoint_cases decode_at_3 dec)
  next
    case four
    obtain b0 b1 b2 b3 where e: "enc4 c = [b0, b1, b2, b3]" by (simp add: enc4_def)
    have len: "Utf8CharLength b0 = 4" using enc4_length [OF assms] e by simp
    have dec: "dec4 b0 b1 b2 b3 = c" using enc4_decode [OF assms] e by simp
    have "Utf8ToCodepoints (b0 # b1 # b2 # b3 # rest) =
            decode_at (b0 # b1 # b2 # b3 # rest) 0 4 #
            Utf8ToCodepoints (drop 4 (b0 # b1 # b2 # b3 # rest))"
      using Utf8ToCodepoints_take [of b0 "b1 # b2 # b3 # rest"] len by simp
    then show ?thesis
      using four assms e by (simp add: append_codepoint_cases decode_at_4 dec)
  qed
qed

lemma encode_dropped: "\<not> c \<le> 0x10FFFF \<Longrightarrow> append_codepoint [] c = []"
proof -
  assume a: "\<not> c \<le> 0x10FFFF"
  then have "\<not> c \<le> 0x7F" "\<not> c \<le> 0x7FF" "\<not> c \<le> 0xFFFF"
    by (simp_all add: word_le_nat_alt)
  then show ?thesis using a by (simp add: append_codepoint_cases)
qed

subsection \<open>Hybrid n-grams as a list of windows\<close>

text \<open>No wrap-around in \<open>i + j\<close> for the sizes that fit an \<open>int\<close> and a vector in memory.\<close>

lemma size_t_add_int:
  assumes "0 \<le> j" "j < 2 ^ 31" "i < 2 ^ 63"
  shows "size_t_add i (size_t_of_int j) = i + nat j"
proof -
  have "j mod 2 ^ 64 = j" using assms by simp
  then have a: "size_t_of_int j = nat j" by (simp add: size_t_of_int_def)
  have "nat j < 2 ^ 31" using assms by simp
  then have "i + nat j < 2 ^ 64" using assms(3) by simp
  then show ?thesis by (simp add: a size_t_add_def)
qed

lemma class_check_loop_eq:
  "n < 2 ^ 31 \<Longrightarrow> i < 2 ^ 63 \<Longrightarrow> 0 \<le> j \<Longrightarrow>
     class_check_loop want cps i n j =
       (\<forall>m. nat j \<le> m \<and> m < nat n \<longrightarrow> IsCJKIdeograph (cps ! (i + m)) = want)"
proof (induction want cps i n j rule: class_check_loop.induct)
  case (1 want cps i n j)
  show ?case
  proof (cases "j < n")
    case False
    then show ?thesis by (subst class_check_loop.simps) auto
  next
    case True
    have "j < 2 ^ 31" using True "1.prems"(1) by (rule less_trans)
    then have idx: "size_t_add i (size_t_of_int j) = i + nat j"
      using "1.prems"(2,3) by (intro size_t_add_int)
    show ?thesis
    proof (cases "IsCJKIdeograph (cps ! (i + nat j)) = want")
      case False
      moreover have "nat j \<le> nat j \<and> nat j < nat n" using True "1.prems" by simp
      ultimately have "\<not> (\<forall>m. nat j \<le> m \<and> m < nat n \<longrightarrow> IsCJKIdeograph (cps ! (i + m)) = want)"
        by blast
      then show ?thesis
        using True False idx by (subst class_check_loop.simps) simp
    next
      case ok: True
      have step: "class_check_loop want cps i n (j + 1) =
          (\<forall>m. nat (j + 1) \<le> m \<and> m < nat n \<longrightarrow> IsCJKIdeograph (cps ! (i + m)) = want)"
        using "1.IH" [OF True] ok idx "1.prems" by simp
      have "(\<forall>m. nat j \<le> m \<and> m < nat n \<longrightarrow> IsCJKIdeograph (cps ! (i + m)) = want) =
            (\<forall>m. nat (j + 1) \<le> m \<and> m < nat n \<longrightarrow> IsCJKIdeograph (cps ! (i + m)) = want)"
      proof -
        have "\<And>m. nat j \<le> m \<longleftrightarrow> m = nat j \<or> nat (j + 1) \<le> m"
          using "1.prems" by auto
        then show ?thesis using ok by metis
      qed
      then show ?thesis
        using True ok idx step by (subst class_check_loop.simps) simp
    qed
  qed
qed

lemma copy_window_loop_eq:
  "n < 2 ^ 31 \<Longrightarrow> i < 2 ^ 63 \<Longrightarrow> 0 \<le> j \<Longrightarrow> j \<le> n \<Longrightarrow>
     copy_window_loop cps i n j acc = acc @ map (\<lambda>m. cps ! (i + m)) [nat j ..< nat n]"
proof (induction cps i n j acc rule: copy_window_loop.induct)
  case (1 cps i n j acc)
  show ?case
  proof (cases "j < n")
    case False
    then have "nat j = nat n" using "1.prems" by simp
    then show ?thesis using False by (subst copy_window_loop.simps) simp
  next
    case True
    have "j < 2 ^ 31" using True "1.prems"(1) by (rule less_trans)
    then have idx: "size_t_add i (size_t_of_int j) = i + nat j"
      using "1.prems"(2,3) by (intro size_t_add_int)
    have nj: "nat (j + 1) = Suc (nat j)" using "1.prems"(3) by simp
    have up: "[nat j ..< nat n] = nat j # [Suc (nat j) ..< nat n]"
      using True "1.prems"(3) by (simp add: upt_conv_Cons)
    have "copy_window_loop cps i n j acc =
            copy_window_loop cps i n (j + 1) (acc @ [cps ! (i + nat j)])"
      using True idx by (subst copy_window_loop.simps) simp
    also have "\<dots> = (acc @ [cps ! (i + nat j)]) @ map (\<lambda>m. cps ! (i + m)) [nat (j + 1) ..< nat n]"
    proof -
      have "copy_window_loop cps i n (j + 1) (acc @ [cps ! size_t_add i (size_t_of_int j)]) =
              (acc @ [cps ! size_t_add i (size_t_of_int j)]) @
              map (\<lambda>m. cps ! (i + m)) [nat (j + 1) ..< nat n]"
        by (rule "1.IH") (use True "1.prems" in simp_all)
      then show ?thesis unfolding idx .
    qed
    also have "\<dots> = acc @ map (\<lambda>m. cps ! (i + m)) [nat j ..< nat n]"
      unfolding nj up by simp
    finally show ?thesis .
  qed
qed

lemma slice_eq:
  assumes "i + n \<le> length cps"
  shows "map (\<lambda>m. cps ! (i + m)) [0 ..< n] = take n (drop i cps)"
  using assms by (intro nth_equalityI) simp_all

lemma try_window_eq:
  assumes "0 < n" "n < 2 ^ 31" "i < length cps" "length cps < 2 ^ 63"
  shows "try_window want cps i n =
     Inr (if i + nat n \<le> length cps \<and>
             (\<forall>c \<in> set (take (nat n) (drop i cps)). IsCJKIdeograph c = want)
          then Some (take (nat n) (drop i cps)) else None)"
proof -
  have i: "i < 2 ^ 63" using assms by simp
  have "0 \<le> n" using assms(1) by simp
  then have fits: "size_t_add i (size_t_of_int n) = i + nat n"
    using assms(2) i by (intro size_t_add_int)
  have small: "\<not> size_t_of_int n > vector_max_size"
  proof -
    have "n mod 2 ^ 64 = n" using assms by simp
    then have "size_t_of_int n = nat n" by (simp add: size_t_of_int_def)
    moreover have "nat n < 2 ^ 31" using assms by simp
    ultimately show ?thesis by (simp add: vector_max_size_def)
  qed
  show ?thesis
  proof (cases "i + nat n \<le> length cps")
    case False
    then show ?thesis by (simp add: try_window_def fits)
  next
    case True
    have w: "take (nat n) (drop i cps) = map (\<lambda>m. cps ! (i + m)) [0 ..< nat n]"
      using slice_eq [OF True] by simp
    have chk: "class_check_loop want cps i n 0 =
        (\<forall>c \<in> set (take (nat n) (drop i cps)). IsCJKIdeograph c = want)"
      unfolding w using class_check_loop_eq [OF assms(2) i, of 0 want cps] by auto
    have cp: "copy_window_loop cps i n 0 [] = take (nat n) (drop i cps)"
      unfolding w using copy_window_loop_eq [OF assms(2) i, of 0 cps "[]"] assms(1) by simp
    show ?thesis using True by (simp add: try_window_def fits chk cp small)
  qed
qed

lemma window_at_try_window:
  assumes "0 < a" "a < 2 ^ 31" "0 < k" "k < 2 ^ 31" "length cps < 2 ^ 63" "i < length cps"
  shows "(if IsCJKIdeograph (cps ! i) then try_window True cps i k else try_window False cps i a)
           = Inr (window_at cps (nat a) (nat k) i)"
  using assms by (simp add: try_window_eq window_at_def Let_def)

lemma hybrid_loop_eq:
  assumes "0 < a" "a < 2 ^ 31" "0 < k" "k < 2 ^ 31" "length cps < 2 ^ 63"
  shows "hybrid_loop cps a k i acc =
     Inr (acc @ map CodepointsToUtf8 (List.map_filter (window_at cps (nat a) (nat k)) [i ..< length cps]))"
  using assms
proof (induction cps a k i acc rule: hybrid_loop.induct)
  case (1 cps a k i acc)
  show ?case
  proof (cases "i < length cps")
    case False
    then show ?thesis by (subst hybrid_loop.simps) (simp add: List.map_filter_simps)
  next
    case True
    have tw: "(if IsCJKIdeograph (cps ! i) then try_window True cps i k else try_window False cps i a)
           = Inr (window_at cps (nat a) (nat k) i)"
      using "1.prems" True by (intro window_at_try_window)
    have up: "[i ..< length cps] = i # [i + 1 ..< length cps]"
      using True by (simp add: upt_conv_Cons)
    show ?thesis
    proof (cases "window_at cps (nat a) (nat k) i")
      case None
      have "hybrid_loop cps a k i acc = hybrid_loop cps a k (i + 1) acc"
        using True tw None by (subst hybrid_loop.simps) simp
      also have "\<dots> = Inr (acc @ map CodepointsToUtf8
            (List.map_filter (window_at cps (nat a) (nat k)) [i + 1 ..< length cps]))"
        using "1.IH"(1) [OF True _ _ "1.prems"] tw None by simp
      finally show ?thesis using None by (simp add: up List.map_filter_simps)
    next
      case (Some w)
      have "hybrid_loop cps a k i acc = hybrid_loop cps a k (i + 1) (acc @ [CodepointsToUtf8 w])"
        using True tw Some by (subst hybrid_loop.simps) simp
      also have "\<dots> = Inr ((acc @ [CodepointsToUtf8 w]) @ map CodepointsToUtf8
            (List.map_filter (window_at cps (nat a) (nat k)) [i + 1 ..< length cps]))"
        using "1.IH"(2) [OF True _ _ "1.prems"] tw Some by simp
      finally show ?thesis using Some by (simp add: up List.map_filter_simps)
    qed
  qed
qed

lemma Utf8ToCodepoints_loop_length:
  "length (Utf8ToCodepoints_loop text i acc) \<le> length acc + (length text - i)"
proof (induction "text" i acc rule: Utf8ToCodepoints_loop.induct)
  case (1 "text" i acc)
  show ?case
  proof (cases "i < length text")
    case False
    then show ?thesis by (subst Utf8ToCodepoints_loop.simps) simp
  next
    case True
    define n where "n = Utf8CharLength (text ! i)"
    have pos: "0 < n" unfolding n_def by (rule Utf8CharLength_pos)
    show ?thesis
    proof (cases "i + n > length text")
      case skip: True
      have "length (Utf8ToCodepoints_loop text (i + 1) acc) \<le> length acc + (length text - (i + 1))"
        using "1.IH"(1) [OF True refl] skip by (simp add: n_def)
      then show ?thesis
        using True skip by (subst Utf8ToCodepoints_loop.simps) (simp add: Let_def n_def)
    next
      case take: False
      have "length (Utf8ToCodepoints_loop text (i + n) (acc @ [decode_at text i n]))
              \<le> length (acc @ [decode_at text i n]) + (length text - (i + n))"
        using "1.IH"(2) [OF True refl] take by (simp add: n_def)
      then show ?thesis
        using True take pos by (subst Utf8ToCodepoints_loop.simps) (simp add: Let_def n_def)
    qed
  qed
qed

lemma Utf8ToCodepoints_length: "length (Utf8ToCodepoints text) \<le> length text"
  using Utf8ToCodepoints_loop_length [of "text" 0 "[]"] by (simp add: Utf8ToCodepoints_def)

lemma window_at_Some:
  assumes "window_at cps a k i = Some w" "0 < a" "0 < k" "i < length cps"
  shows "\<exists>j. j + length w \<le> length cps \<and> w = take (length w) (drop j cps)"
    and "w \<noteq> []" and "hd w = cps ! i"
    and "length w = (if IsCJKIdeograph (cps ! i) then k else a)"
    and "\<forall>c \<in> set w. IsCJKIdeograph c = IsCJKIdeograph (cps ! i)"
proof -
  define n where "n = (if IsCJKIdeograph (cps ! i) then k else a)"
  define s where "s = take n (drop i cps)"
  have n: "0 < n" using assms(2,3) by (simp add: n_def)
  have "(if i + n \<le> length cps \<and> (\<forall>c \<in> set s. IsCJKIdeograph c = IsCJKIdeograph (cps ! i))
         then Some s else None) = Some w"
    using assms(1) unfolding window_at_def Let_def n_def s_def .
  then have fit: "i + n \<le> length cps" and w: "s = w"
    and cls: "\<forall>c \<in> set s. IsCJKIdeograph c = IsCJKIdeograph (cps ! i)"
    by (simp_all split: if_splits)
  have len: "length s = n" using fit by (simp add: s_def)
  have ne: "s \<noteq> []" using len n by auto
  have hd: "hd s = cps ! i"
    using n assms(4) by (simp add: s_def hd_drop_conv_nth)
  have slice: "s = take (length s) (drop i cps)"
    unfolding len by (simp add: s_def)
  have "i + length s \<le> length cps" using fit len by simp
  then have "\<exists>j. j + length s \<le> length cps \<and> s = take (length s) (drop j cps)"
    using slice by blast
  then show "\<exists>j. j + length w \<le> length cps \<and> w = take (length w) (drop j cps)"
    unfolding w .
  show "w \<noteq> []" using ne unfolding w .
  show "hd w = cps ! i" using hd unfolding w .
  show "length w = (if IsCJKIdeograph (cps ! i) then k else a)" using len unfolding w n_def .
  show "\<forall>c \<in> set w. IsCJKIdeograph c = IsCJKIdeograph (cps ! i)" using cls unfolding w .
qed

lemma set_map_filter_iff:
  "w \<in> set (List.map_filter f xs) \<longleftrightarrow> (\<exists>x \<in> set xs. f x = Some w)"
  by (induction xs) (auto split: option.splits)

lemma kana_not_CJK: "0x3040 \<le> c \<Longrightarrow> c \<le> 0x30FF \<Longrightarrow> \<not> IsCJKIdeograph c"
  by (simp add: IsCJKIdeograph_def cjk_constants word_le_nat_alt)

lemmas hybrid_eval =
  GenerateHybridNgrams_def Utf8ToCodepoints_def Utf8ToCodepoints_loop.simps Utf8CharLength_def
  decode_at_def utf8_constants cjk_constants hybrid_loop.simps try_window_def
  class_check_loop.simps copy_window_loop.simps size_t_add_def size_t_of_int_def
  vector_max_size_def IsCJKIdeograph_def CodepointsToUtf8_def append_codepoint_def Let_def
  bytes_of_def

subsection \<open>Byte ranges and bits\<close>

lemma in_range_cases:
  assumes "in_range lo hi b"
  shows "b \<in> of_nat ` set [unat lo ..< Suc (unat hi)]"
proof -
  have "unat lo \<le> unat b" "unat b \<le> unat hi"
    using assms by (simp_all add: in_range_def word_le_nat_alt)
  then have "unat b \<in> set [unat lo ..< Suc (unat hi)]" by auto
  then have "of_nat (unat b) \<in> (of_nat ` set [unat lo ..< Suc (unat hi)] :: byte set)"
    by (rule imageI)
  then show ?thesis by simp
qed

lemma ascii_bits: "(b :: byte) \<le> 0x7F \<Longrightarrow> \<not> bit b 7"
  by (simp add: word_le_nat_alt byte_bit_unat)

lemma cont_bits: "in_range 0x80 0xBF b \<Longrightarrow> bit b 7 \<and> \<not> bit b 6"
  by (drule in_range_cases) (simp, elim disjE, simp_all)

lemma lead2_bits:
  "in_range 0xC2 0xDF b \<Longrightarrow>
     bit b 7 \<and> bit b 6 \<and> \<not> bit b 5 \<and> (bit b 1 \<or> bit b 2 \<or> bit b 3 \<or> bit b 4)"
  by (drule in_range_cases) (simp, elim disjE, simp_all)


lemma lead3_bits:
  "in_range 0xE0 0xEF b \<Longrightarrow>
     bit b 7 \<and> bit b 6 \<and> bit b 5 \<and> \<not> bit b 4 \<and>
     (b \<noteq> 0xE0 \<longrightarrow> bit b 0 \<or> bit b 1 \<or> bit b 2 \<or> bit b 3)"
  by (drule in_range_cases) (simp, elim disjE, simp_all)

lemma lead4_bits:
  "in_range 0xF0 0xF4 b \<Longrightarrow>
     bit b 7 \<and> bit b 6 \<and> bit b 5 \<and> bit b 4 \<and> \<not> bit b 3 \<and>
     (b \<noteq> 0xF0 \<longrightarrow> bit b 0 \<or> bit b 1 \<or> bit b 2) \<and>
     (b \<noteq> 0xF4 \<longrightarrow> \<not> bit b 2) \<and>
     (b = 0xF4 \<longrightarrow> \<not> bit b 0 \<and> \<not> bit b 1)"
  by (drule in_range_cases) (simp, elim disjE, simp_all)

lemma second_A0_bits: "in_range 0xA0 0xBF b \<Longrightarrow> bit b 7 \<and> \<not> bit b 6 \<and> bit b 5"
  by (drule in_range_cases) (simp, elim disjE, simp_all)

lemma second_9F_bits: "in_range 0x80 0x9F b \<Longrightarrow> bit b 7 \<and> \<not> bit b 6"
  by (drule in_range_cases) (simp, elim disjE, simp_all)

lemma second_90_bits:
  "in_range 0x90 0xBF b \<Longrightarrow> bit b 7 \<and> \<not> bit b 6 \<and> (bit b 4 \<or> bit b 5)"
  by (drule in_range_cases) (simp, elim disjE, simp_all)

lemma second_8F_bits:
  "in_range 0x80 0x8F b \<Longrightarrow> bit b 7 \<and> \<not> bit b 6 \<and> \<not> bit b 5 \<and> \<not> bit b 4"
  by (drule in_range_cases) (simp, elim disjE, simp_all)

lemma second_of_three_bits:
  assumes "in_range 0xE0 0xEF b0" "second_of_three b0 b1"
  shows "bit b1 7 \<and> \<not> bit b1 6 \<and> (bit b0 0 \<or> bit b0 1 \<or> bit b0 2 \<or> bit b0 3 \<or> bit b1 5)"
  using assms lead3_bits [OF assms(1)] second_A0_bits [of b1] second_9F_bits [of b1] cont_bits [of b1]
  unfolding second_of_three_def by (auto split: if_splits)

lemma second_of_four_bits:
  assumes "in_range 0xF0 0xF4 b0" "second_of_four b0 b1"
  shows "bit b1 7 \<and> \<not> bit b1 6 \<and>
         (bit b0 0 \<or> bit b0 1 \<or> bit b0 2 \<or> bit b1 4 \<or> bit b1 5) \<and>
         (\<not> bit b0 2 \<or> (\<not> bit b0 0 \<and> \<not> bit b0 1 \<and> \<not> bit b1 4 \<and> \<not> bit b1 5))"
  using assms lead4_bits [OF assms(1)] second_90_bits [of b1] second_8F_bits [of b1] cont_bits [of b1]
  unfolding second_of_four_def by (auto split: if_splits)

subsection \<open>Bits of a decoded codepoint\<close>

lemma dec2_bit:
  "bit (dec2 b0 b1) n \<longleftrightarrow> (6 \<le> n \<and> n < 11 \<and> bit b0 (n - 6)) \<or> (n < 6 \<and> bit b1 n)"
  by (auto simp: dec2_def bit_simps const_bits)

lemma dec3_bit:
  "bit (dec3 b0 b1 b2) n \<longleftrightarrow>
     (12 \<le> n \<and> n < 16 \<and> bit b0 (n - 12)) \<or> (6 \<le> n \<and> n < 12 \<and> bit b1 (n - 6)) \<or>
     (n < 6 \<and> bit b2 n)"
  by (auto simp: dec3_def bit_simps const_bits)

lemma dec4_bit:
  "bit (dec4 b0 b1 b2 b3) n \<longleftrightarrow>
     (18 \<le> n \<and> n < 21 \<and> bit b0 (n - 18)) \<or> (12 \<le> n \<and> n < 18 \<and> bit b1 (n - 12)) \<or>
     (6 \<le> n \<and> n < 12 \<and> bit b2 (n - 6)) \<or> (n < 6 \<and> bit b3 n)"
proof -
  consider "n < 6" | "6 \<le> n" "n < 12" | "12 \<le> n" "n < 18" | "18 \<le> n"
    by linarith
  then show ?thesis
    by cases (simp_all add: dec4_def bit_simps const_bits, auto)
qed


subsection \<open>Decoding one well-formed sequence, then encoding it\<close>

lemma lt_0x80: "(c :: codepoint) < 2 ^ 7 \<Longrightarrow> c \<le> 0x7F"
  by (simp add: word_le_nat_alt word_less_nat_alt)

lemma lt_0x800: "(c :: codepoint) < 2 ^ 11 \<Longrightarrow> c \<le> 0x7FF"
  by (simp add: word_le_nat_alt word_less_nat_alt)

lemma lt_0x10000: "(c :: codepoint) < 2 ^ 16 \<Longrightarrow> c \<le> 0xFFFF"
  by (simp add: word_le_nat_alt word_less_nat_alt)

lemma lt_0x100000: "(c :: codepoint) < 2 ^ 20 \<Longrightarrow> c \<le> 0x10FFFF"
  by (simp add: word_le_nat_alt word_less_nat_alt)

lemma bit_0x10: "bit (0x10 :: int) n \<longleftrightarrow> n = 4"
proof -
  have "bit (2 ^ 4 :: int) n \<longleftrightarrow> n = 4"
    by (simp only: bit_exp_iff) simp
  then show ?thesis by simp
qed

lemma le_0x10FFFF_if_bits:
  fixes c :: codepoint
  assumes hi: "\<And>n. bit c n \<Longrightarrow> n < 21"
    and top: "bit c 20 \<Longrightarrow> \<not> bit c 16 \<and> \<not> bit c 17 \<and> \<not> bit c 18 \<and> \<not> bit c 19"
  shows "c \<le> 0x10FFFF"
proof (cases "bit c 20")
  case False
  have "n < 20" if "bit c n" for n
  proof -
    have "n < 21" using that by (rule hi)
    moreover have "n \<noteq> 20" using that False by auto
    ultimately show ?thesis by simp
  qed
  then have "c < 2 ^ 20" by (intro below_if_bits) simp_all
  then show ?thesis by (rule lt_0x100000)
next
  case True
  note t = top [OF True]
  have "drop_bit 16 c = 16"
  proof (rule bit_word_eqI)
    fix n :: nat
    assume "n < LENGTH(32)"
    consider "n < 4" | "n = 4" | "4 < n" by linarith
    then show "bit (drop_bit 16 c) n = bit (16 :: codepoint) n"
    proof cases
      case 1
      then have "n \<in> {0, 1, 2, 3}" by auto
      then show ?thesis using t by (auto simp: bit_simps bit_0x10)
    next
      case 2
      then show ?thesis using True by (simp add: bit_simps bit_0x10)
    next
      case 3
      then have "\<not> bit c (16 + n)" using hi [of "16 + n"] by auto
      then show ?thesis using 3 by (simp add: bit_simps bit_0x10)
    qed
  qed
  then have d: "unat (drop_bit 16 c) = unat (16 :: codepoint)" by (rule arg_cong)
  have "unat (drop_bit 16 c) = drop_bit 16 (unat c)" by (rule unat_drop_bit_eq)
  also have "\<dots> = unat c div 2 ^ 16" by (rule drop_bit_eq_div)
  finally have "unat c div 2 ^ 16 = 16" using d by simp
  then have "unat c \<le> 0x10FFFF" by simp
  then show ?thesis by (simp add: word_le_nat_alt)
qed

lemma roundtrip_1:
  assumes "\<not> bit b 7"
  shows "append_codepoint [] (ucast (b :: byte)) = [b]"
proof -
  define c :: codepoint where "c = ucast b"
  have bits: "bit c n \<longleftrightarrow> n < 8 \<and> bit b n" for n
    by (auto simp: c_def bit_simps dest: bit_imp_le_length)
  have "n < 7" if "bit c n" for n
  proof -
    have "n < 8" "bit b n" using that bits by auto
    moreover have "n \<noteq> 7" using \<open>bit b n\<close> assms by auto
    ultimately show ?thesis by simp
  qed
  then have "c < 2 ^ 7" by (intro below_if_bits) simp_all
  then have le: "c \<le> 0x7F" by (rule lt_0x80)
  have "(ucast c :: byte) = b"
    by (rule bit_word_eqI) (simp add: bit_simps bits)
  then show ?thesis using le by (simp add: append_codepoint_cases c_def)
qed

lemma roundtrip_2:
  assumes b0: "bit b0 7" "bit b0 6" "\<not> bit b0 5"
    and nz: "bit b0 1 \<or> bit b0 2 \<or> bit b0 3 \<or> bit b0 4"
    and b1: "bit b1 7" "\<not> bit b1 6"
  shows "append_codepoint [] (dec2 b0 b1) = [b0, b1]"
proof -
  define c where "c = dec2 b0 b1"
  have bits: "bit c n \<longleftrightarrow> (6 \<le> n \<and> n < 11 \<and> bit b0 (n - 6)) \<or> (n < 6 \<and> bit b1 n)" for n
    unfolding c_def by (rule dec2_bit)
  have "n < 11" if "bit c n" for n
    using that unfolding bits by linarith
  then have "c < 2 ^ 11" by (intro below_if_bits) simp_all
  then have le: "c \<le> 0x7FF" by (rule lt_0x800)
  have "bit c 7 \<or> bit c 8 \<or> bit c 9 \<or> bit c 10" using nz by (simp add: bits)
  then have gt: "\<not> c \<le> 0x7F" using bit_below [OF le_0x7F, of c] by fastforce
  have e0: "(ucast (0xC0 OR drop_bit 6 c) :: byte) = b0"
    using b0 by (simp add: byte_eq_iff bit_simps const_bits bits)
  have e1: "(ucast (0x80 OR (c AND 0x3F)) :: byte) = b1"
    using b1 by (simp add: byte_eq_iff bit_simps const_bits bits)
  show ?thesis
    using le gt e0 e1 by (simp add: append_codepoint_cases enc2_def c_def [symmetric])
qed


lemma roundtrip_3:
  assumes b0: "bit b0 7" "bit b0 6" "bit b0 5" "\<not> bit b0 4"
    and nz: "bit b0 0 \<or> bit b0 1 \<or> bit b0 2 \<or> bit b0 3 \<or> bit b1 5"
    and b1: "bit b1 7" "\<not> bit b1 6"
    and b2: "bit b2 7" "\<not> bit b2 6"
  shows "append_codepoint [] (dec3 b0 b1 b2) = [b0, b1, b2]"
proof -
  define c where "c = dec3 b0 b1 b2"
  have bits: "bit c n \<longleftrightarrow>
     (12 \<le> n \<and> n < 16 \<and> bit b0 (n - 12)) \<or> (6 \<le> n \<and> n < 12 \<and> bit b1 (n - 6)) \<or>
     (n < 6 \<and> bit b2 n)" for n
    unfolding c_def by (rule dec3_bit)
  have "n < 16" if "bit c n" for n
    using that unfolding bits by linarith
  then have "c < 2 ^ 16" by (intro below_if_bits) simp_all
  then have le: "c \<le> 0xFFFF" by (rule lt_0x10000)
  have "bit c 11 \<or> bit c 12 \<or> bit c 13 \<or> bit c 14 \<or> bit c 15"
    using nz by (simp add: bits) blast
  then have gt: "\<not> c \<le> 0x7FF" using bit_below [OF le_0x7FF, of c] by fastforce
  then have gt': "\<not> c \<le> 0x7F" by (simp add: word_le_nat_alt)
  have e0: "(ucast (0xE0 OR drop_bit 12 c) :: byte) = b0"
    using b0 by (simp add: byte_eq_iff bit_simps const_bits bits)
  have e1: "(ucast (0x80 OR (drop_bit 6 c AND 0x3F)) :: byte) = b1"
    using b1 by (simp add: byte_eq_iff bit_simps const_bits bits)
  have e2: "(ucast (0x80 OR (c AND 0x3F)) :: byte) = b2"
    using b2 by (simp add: byte_eq_iff bit_simps const_bits bits)
  show ?thesis
    using le gt gt' e0 e1 e2 by (simp add: append_codepoint_cases enc3_def c_def [symmetric])
qed

lemma roundtrip_4:
  assumes b0: "bit b0 7" "bit b0 6" "bit b0 5" "bit b0 4" "\<not> bit b0 3"
    and nz: "bit b0 0 \<or> bit b0 1 \<or> bit b0 2 \<or> bit b1 4 \<or> bit b1 5"
    and top: "\<not> bit b0 2 \<or> (\<not> bit b0 0 \<and> \<not> bit b0 1 \<and> \<not> bit b1 4 \<and> \<not> bit b1 5)"
    and b1: "bit b1 7" "\<not> bit b1 6"
    and b2: "bit b2 7" "\<not> bit b2 6"
    and b3: "bit b3 7" "\<not> bit b3 6"
  shows "append_codepoint [] (dec4 b0 b1 b2 b3) = [b0, b1, b2, b3]"
proof -
  define c where "c = dec4 b0 b1 b2 b3"
  have bits: "bit c n \<longleftrightarrow>
     (18 \<le> n \<and> n < 21 \<and> bit b0 (n - 18)) \<or> (12 \<le> n \<and> n < 18 \<and> bit b1 (n - 12)) \<or>
     (6 \<le> n \<and> n < 12 \<and> bit b2 (n - 6)) \<or> (n < 6 \<and> bit b3 n)" for n
    unfolding c_def by (rule dec4_bit)
  have hi: "n < 21" if "bit c n" for n
    using that unfolding bits by linarith
  have "bit c 20 \<Longrightarrow> \<not> bit c 16 \<and> \<not> bit c 17 \<and> \<not> bit c 18 \<and> \<not> bit c 19"
    using top by (simp add: bits)
  then have le: "c \<le> 0x10FFFF" using hi by (intro le_0x10FFFF_if_bits)
  have "bit c 16 \<or> bit c 17 \<or> bit c 18 \<or> bit c 19 \<or> bit c 20"
    using nz by (simp add: bits) blast
  then have gt: "\<not> c \<le> 0xFFFF" using bit_below [OF le_0xFFFF, of c] by fastforce
  then have gt': "\<not> c \<le> 0x7F" "\<not> c \<le> 0x7FF" by (simp_all add: word_le_nat_alt)
  have e0: "(ucast (0xF0 OR drop_bit 18 c) :: byte) = b0"
    using b0 by (simp add: byte_eq_iff bit_simps const_bits bits)
  have e1: "(ucast (0x80 OR (drop_bit 12 c AND 0x3F)) :: byte) = b1"
    using b1 by (simp add: byte_eq_iff bit_simps const_bits bits)
  have e2: "(ucast (0x80 OR (drop_bit 6 c AND 0x3F)) :: byte) = b2"
    using b2 by (simp add: byte_eq_iff bit_simps const_bits bits)
  have e3: "(ucast (0x80 OR (c AND 0x3F)) :: byte) = b3"
    using b3 by (simp add: byte_eq_iff bit_simps const_bits bits)
  show ?thesis
    using le gt gt' e0 e1 e2 e3 by (simp add: append_codepoint_cases enc4_def c_def [symmetric])
qed


section \<open>The claims about the search expression compiler\<close>

text \<open>
  C3, as the code has it, for every search expression: \<open>ToQueryString\<close> writes each
  excluded term as \<open>NOT term\<close> and puts the separator \<open>" AND "\<close> before it only when the
  accumulator is not empty. With \<open>acc\<close> the text built from the required terms (the first
  one, then each later one after \<open>" AND "\<close>): if \<open>acc\<close> is empty the first excluded term
  starts the output with no separator and every later one follows \<open>" AND "\<close>; otherwise
  every excluded term follows \<open>" AND "\<close>. The raw expression, if there is one, comes last
  in parentheses, after \<open>" AND "\<close> under the same guard.
\<close>

theorem ToQueryString_excluded_terms:
  "ToQueryString expr =
     (let acc = (case required_terms expr of [] \<Rightarrow> []
                 | r # rs \<Rightarrow> r @ concat (map and_term rs));
          with_not =
            (if acc = [] then
               (case excluded_terms expr of [] \<Rightarrow> []
                | t # ts \<Rightarrow> ''NOT '' @ t @ concat (map and_not ts))
             else acc @ concat (map and_not (excluded_terms expr)))
      in if raw_expression expr = [] then with_not
         else if with_not = [] then ''('' @ raw_expression expr @ '')''
         else with_not @ '' AND ('' @ raw_expression expr @ '')'')"
proof -
  define acc where "acc = (case required_terms expr of [] \<Rightarrow> []
                 | r # rs \<Rightarrow> r @ concat (map and_term rs))"
  have a: "(if required_terms expr \<noteq> []
            then foldl (required_step (required_terms expr)) [] [0..<length (required_terms expr)]
            else []) = acc"
  proof (cases "required_terms expr")
    case Nil
    then show ?thesis by (simp add: acc_def)
  next
    case (Cons r rs)
    then show ?thesis
      unfolding acc_def using foldl_required_step [of r rs] by (simp del: upt_Suc length_Cons)
  qed
  have b: "ToQueryString expr =
     (let oss2 = foldl excluded_step acc (excluded_terms expr)
      in if raw_expression expr \<noteq> []
         then (if oss2 \<noteq> [] then oss2 @ '' AND '' else oss2) @ ''('' @ raw_expression expr @ '')''
         else oss2)"
    unfolding ToQueryString_def a Let_def ..
  show ?thesis
    unfolding b foldl_excluded_step acc_def [symmetric] by (simp add: Let_def)
qed

theorem ToQueryString_excluded_terms_witness:
  "ToQueryString \<lparr>required_terms = [''golang''], excluded_terms = [''old'', ''stale''],
                   optional_terms = [], raw_expression = []\<rparr>
     = ''golang AND NOT old AND NOT stale'' \<and>
   ToQueryString \<lparr>required_terms = [], excluded_terms = [''old'', ''stale''],
                   optional_terms = [], raw_expression = []\<rparr>
     = ''NOT old AND NOT stale'' \<and>
   ToQueryString \<lparr>required_terms = [''golang'', ''rust''], excluded_terms = [''old'', ''stale''],
                   optional_terms = [], raw_expression = ''a OR b''\<rparr>
     = ''golang AND rust AND NOT old AND NOT stale AND (a OR b)'' \<and>
   ToQueryString \<lparr>required_terms = [], excluded_terms = [''old''],
                   optional_terms = [], raw_expression = ''a OR b''\<rparr>
     = ''NOT old AND (a OR b)''"
  using ToQueryString_excluded_terms
          [of "\<lparr>required_terms = [''golang''], excluded_terms = [''old'', ''stale''],
                optional_terms = [], raw_expression = []\<rparr>"]
        ToQueryString_excluded_terms
          [of "\<lparr>required_terms = [], excluded_terms = [''old'', ''stale''],
                optional_terms = [], raw_expression = []\<rparr>"]
        ToQueryString_excluded_terms
          [of "\<lparr>required_terms = [''golang'', ''rust''], excluded_terms = [''old'', ''stale''],
                optional_terms = [], raw_expression = ''a OR b''\<rparr>"]
        ToQueryString_excluded_terms
          [of "\<lparr>required_terms = [], excluded_terms = [''old''],
                optional_terms = [], raw_expression = ''a OR b''\<rparr>"]
  by (simp add: and_not_def and_term_def)

text \<open>
  C3, as the claim states it, fails: with no required term, the one excluded term
  \<open>old\<close> and no raw expression, the output is \<open>NOT old\<close>; no \<open>" AND "\<close> precedes it.
\<close>

theorem ToQueryString_excluded_only_counterexample:
  "ToQueryString \<lparr>required_terms = [], excluded_terms = [''old''],
                   optional_terms = [], raw_expression = []\<rparr> = ''NOT old'' \<and>
   ToQueryString \<lparr>required_terms = [], excluded_terms = [''old''],
                   optional_terms = [], raw_expression = []\<rparr> \<noteq> '' AND NOT old''"
  by code_simp

text \<open>
  C5: \<open>ParseSearchExpression "python OR ruby"\<close> succeeds with the raw expression
  \<open>python OR ruby\<close> and no required or excluded term, and \<open>ToQueryString\<close> of the result
  is \<open>(python OR ruby)\<close>. The OR-chain is found with one token of lookahead: for every
  input and parser state, \<open>LooksLikeOrExpression\<close> answers whether the token after the
  current one is \<open>kOr\<close>, and hands back the state with the cursor and the current token
  as they were (only the \<open>last_pos_\<close> bookkeeping of \<open>Advance\<close> stays).
\<close>

theorem parse_python_or_ruby:
  "ParseSearchExpression ''python OR ruby'' =
     Inr \<lparr>required_terms = [], excluded_terms = [], optional_terms = [],
          raw_expression = ''python OR ruby''\<rparr> \<and>
   ToQueryString \<lparr>required_terms = [], excluded_terms = [], optional_terms = [],
                   raw_expression = ''python OR ruby''\<rparr> = ''(python OR ruby)'' \<and>
   LooksLikeOrExpression input st =
     (tok_type (fst (Next input (tokenizer_pos st))) = kOr, st\<lparr>last_pos := tokenizer_pos st\<rparr>)"
proof -
  have a: "ParseSearchExpression ''python OR ruby'' =
     Inr \<lparr>required_terms = [], excluded_terms = [], optional_terms = [],
          raw_expression = ''python OR ruby''\<rparr>"
    by code_simp
  have b: "ToQueryString \<lparr>required_terms = [], excluded_terms = [], optional_terms = [],
                   raw_expression = ''python OR ruby''\<rparr> = ''(python OR ruby)''"
    by code_simp
  have c: "LooksLikeOrExpression input st =
     (tok_type (fst (Next input (tokenizer_pos st))) = kOr, st\<lparr>last_pos := tokenizer_pos st\<rparr>)"
    by (simp add: LooksLikeOrExpression_def Advance_def Let_def split: prod.splits)
  show ?thesis using a b c by blast
qed



text \<open>
  C8: on the input of length zero \<open>ParseSearchExpression\<close> fails, and the failure is
  the one of its first statement, which no parser or tokenizer precedes: the error with
  code \<open>kQuerySyntaxError\<close> and message \<open>Empty search expression\<close> (the kind the
  specification calls EmptyExpression).
\<close>

theorem parse_empty_input:
  "ParseSearchExpression [] = Inl (MakeError kQuerySyntaxError ''Empty search expression'')"
  by (simp add: ParseSearchExpression_def)




section \<open>The claims about the UTF-8 codec and the n-grams\<close>

text \<open>
  C7: with \<open>cs\<close> the codepoints decoded from the text, \<open>GenerateNgrams text n\<close> is empty
  if \<open>n \<le> 0\<close> or \<open>cs\<close> has fewer than \<open>n\<close> elements; otherwise it is the list of the
  \<open>length cs - n + 1\<close> windows in order, the \<open>i\<close>-th being the UTF-8 rendering of the
  \<open>n\<close> codepoints of \<open>cs\<close> from index \<open>i\<close> on. For \<open>n = 1\<close> that is one n-gram for each
  codepoint.
\<close>

theorem GenerateNgrams_windows:
  "GenerateNgrams text n =
     (let cs = Utf8ToCodepoints text in
      if n \<le> 0 \<or> int (length cs) < n then []
      else map (\<lambda>i. CodepointsToUtf8 (take (nat n) (drop i cs))) [0 ..< length cs - nat n + 1])"
proof -
  define cs where "cs = Utf8ToCodepoints text"
  show ?thesis
  proof (cases "n \<le> 0 \<or> int (length cs) < n")
    case True
    then show ?thesis
      by (auto simp: GenerateNgrams_def Let_def cs_def [symmetric])
  next
    case False
    then have n: "0 < n" "nat n \<le> length cs" by auto
    then have ne: "cs \<noteq> []" by auto
    show ?thesis
    proof (cases "n = 1")
      case True
      have "foldl unigram_step [] cs = map (\<lambda>k. CodepointsToUtf8 (take 1 (drop k cs))) [0 ..< length cs]"
        by (simp add: foldl_unigram_step map_singletons_windows [of CodepointsToUtf8 cs])
      then show ?thesis
        using True ne by (simp add: GenerateNgrams_def Let_def cs_def [symmetric])
    next
      case False
      have "ngram_loop cs (nat n) 0 [] =
              map (\<lambda>k. CodepointsToUtf8 (take (nat n) (drop k cs))) [0 ..< length cs - nat n + 1]"
        using ngram_loop_eq [OF n(2), of 0 "[]"] by simp
      then show ?thesis
        using False n ne by (simp add: GenerateNgrams_def Let_def cs_def [symmetric])
    qed
  qed
qed

theorem GenerateNgrams_windows_witness:
  "GenerateNgrams (bytes_of ''hello'') 2 = map bytes_of [''he'', ''el'', ''ll'', ''lo''] \<and>
   GenerateNgrams (bytes_of ''hello'') 1 = map bytes_of [''h'', ''e'', ''l'', ''l'', ''o''] \<and>
   GenerateNgrams (bytes_of ''hello'') 6 = [] \<and>
   GenerateNgrams (bytes_of ''hello'') 0 = []"
proof -
  have cs: "Utf8ToCodepoints (bytes_of ''hello'') = [0x68, 0x65, 0x6C, 0x6C, 0x6F]"
    by code_simp
  have e2: "map (\<lambda>i. CodepointsToUtf8 (take 2 (drop i [0x68, 0x65, 0x6C, 0x6C, 0x6F]))) [0, 1, 2, 3]
      = map bytes_of [''he'', ''el'', ''ll'', ''lo'']"
    by code_simp
  have e1: "map (\<lambda>i. CodepointsToUtf8 (take 1 (drop i [0x68, 0x65, 0x6C, 0x6C, 0x6F]))) [0, 1, 2, 3, 4]
      = map bytes_of [''h'', ''e'', ''l'', ''l'', ''o'']"
    by code_simp
  have u4: "[0 ..< 4] = [0, 1, 2, 3]" and u5: "[0 ..< 5] = [0, 1, 2, 3, 4]"
    by (simp_all add: upt_rec)
  show ?thesis
    using GenerateNgrams_windows [of "bytes_of ''hello''" 2]
          GenerateNgrams_windows [of "bytes_of ''hello''" 1]
          GenerateNgrams_windows [of "bytes_of ''hello''" 6]
          GenerateNgrams_windows [of "bytes_of ''hello''" 0]
    unfolding cs Let_def using e1 e2 by (simp add: u4 u5)
qed

text \<open>
  C9: decoding the encoding of a list of codepoints gives back the list without its
  elements above \<open>0x10FFFF\<close>, the values that \<open>CodepointsToUtf8\<close> drops; so a list with all
  elements up to \<open>0x10FFFF\<close> comes back unchanged.
\<close>

theorem decode_encode:
  "Utf8ToCodepoints (CodepointsToUtf8 cps) = filter (\<lambda>c. c \<le> kUnicodeMaxCodepoint) cps \<and>
   ((\<forall>c \<in> set cps. c \<le> kUnicodeMaxCodepoint) \<longrightarrow>
      Utf8ToCodepoints (CodepointsToUtf8 cps) = cps)"
proof -
  have a: "Utf8ToCodepoints (CodepointsToUtf8 cps) = filter (\<lambda>c. c \<le> 0x10FFFF) cps"
  proof (induction cps)
    case Nil
    show ?case by (simp add: CodepointsToUtf8_Nil Utf8ToCodepoints_Nil)
  next
    case (Cons c cps)
    show ?case
    proof (cases "c \<le> 0x10FFFF")
      case True
      then show ?thesis
        using Cons decode_encode_one [OF True, of "CodepointsToUtf8 cps"]
        by (simp add: CodepointsToUtf8_Cons)
    next
      case False
      then show ?thesis
        using Cons encode_dropped [OF False] by (simp add: CodepointsToUtf8_Cons)
    qed
  qed
  have b: "(\<forall>c \<in> set cps. c \<le> 0x10FFFF) \<longrightarrow> filter (\<lambda>c. c \<le> 0x10FFFF) cps = cps"
    by (simp add: filter_id_conv)
  show ?thesis using a b by (simp add: kUnicodeMaxCodepoint_def)
qed

theorem decode_encode_witness:
  "Utf8ToCodepoints (CodepointsToUtf8 [0x41, 0xE9, 0x6F22, 0x1F600, 0x10FFFF])
     = [0x41, 0xE9, 0x6F22, 0x1F600, 0x10FFFF] \<and>
   Utf8ToCodepoints (CodepointsToUtf8 [0x41, 0x110000, 0xE9]) = [0x41, 0xE9]"
  using decode_encode [of "[0x41, 0xE9, 0x6F22, 0x1F600, 0x10FFFF]"]
        decode_encode [of "[0x41, 0x110000, 0xE9]"]
  by (simp add: kUnicodeMaxCodepoint_def)

text \<open>
  C1: for every well-formed UTF-8 byte string \<open>s\<close>, decoding \<open>s\<close> with
  \<open>Utf8ToCodepoints\<close> and encoding the codepoints with \<open>CodepointsToUtf8\<close> gives back
  \<open>s\<close>, byte for byte.
\<close>

theorem encode_decode_well_formed:
  "well_formed_utf8 s \<Longrightarrow> CodepointsToUtf8 (Utf8ToCodepoints s) = s"
proof (induction "length s" arbitrary: s rule: less_induct)
  case less
  show ?case
  proof (cases s)
    case Nil
    then show ?thesis by (simp add: Utf8ToCodepoints_Nil CodepointsToUtf8_Nil)
  next
    case (Cons b0 rest)
    have wf: "well_formed_utf8 (b0 # rest)" using less.prems Cons by simp
    consider (one) "b0 \<le> 0x7F"
      | (two) "\<not> b0 \<le> 0x7F" "in_range 0xC2 0xDF b0"
      | (three) "\<not> b0 \<le> 0x7F" "\<not> in_range 0xC2 0xDF b0" "in_range 0xE0 0xEF b0"
      | (four) "\<not> b0 \<le> 0x7F" "\<not> in_range 0xC2 0xDF b0" "\<not> in_range 0xE0 0xEF b0"
          "in_range 0xF0 0xF4 b0"
      using wf by (auto split: if_splits)
    then show ?thesis
    proof cases
      case one
      have wfr: "well_formed_utf8 rest" using wf one by simp
      have nb: "\<not> bit b0 7" using one by (rule ascii_bits)
      have len: "Utf8CharLength b0 = 1" using nb by (simp add: Utf8CharLength_bits)
      have d: "Utf8ToCodepoints (b0 # rest) = ucast b0 # Utf8ToCodepoints rest"
        using Utf8ToCodepoints_take [of b0 rest] len by (simp add: decode_at_1)
      have ih: "CodepointsToUtf8 (Utf8ToCodepoints rest) = rest"
        using wfr Cons by (intro less.hyps) simp_all
      show ?thesis
        unfolding Cons d CodepointsToUtf8_Cons ih roundtrip_1 [OF nb] by simp
    next
      case two
      obtain b1 rest' where r: "rest = b1 # rest'" and c1: "in_range 0x80 0xBF b1"
        and wfr: "well_formed_utf8 rest'"
        using wf two by (auto split: list.splits)
      note l = lead2_bits [OF two(2)]
      note k1 = cont_bits [OF c1]
      have len: "Utf8CharLength b0 = 2" using l by (simp add: Utf8CharLength_bits)
      have d: "Utf8ToCodepoints (b0 # b1 # rest') = dec2 b0 b1 # Utf8ToCodepoints rest'"
        using Utf8ToCodepoints_take [of b0 "b1 # rest'"] len by (simp add: decode_at_2)
      have ih: "CodepointsToUtf8 (Utf8ToCodepoints rest') = rest'"
        using wfr Cons r by (intro less.hyps) simp_all
      have e: "append_codepoint [] (dec2 b0 b1) = [b0, b1]"
        using l k1 by (intro roundtrip_2) simp_all
      show ?thesis
        unfolding Cons r d CodepointsToUtf8_Cons ih e by simp
    next
      case three
      obtain b1 b2 rest' where r: "rest = b1 # b2 # rest'" and c1: "second_of_three b0 b1"
        and c2: "in_range 0x80 0xBF b2" and wfr: "well_formed_utf8 rest'"
        using wf three by (auto split: list.splits)
      note l = lead3_bits [OF three(3)]
      note k1 = second_of_three_bits [OF three(3) c1]
      note k2 = cont_bits [OF c2]
      have len: "Utf8CharLength b0 = 3" using l by (simp add: Utf8CharLength_bits)
      have d: "Utf8ToCodepoints (b0 # b1 # b2 # rest') = dec3 b0 b1 b2 # Utf8ToCodepoints rest'"
        using Utf8ToCodepoints_take [of b0 "b1 # b2 # rest'"] len by (simp add: decode_at_3)
      have ih: "CodepointsToUtf8 (Utf8ToCodepoints rest') = rest'"
        using wfr Cons r by (intro less.hyps) simp_all
      have e: "append_codepoint [] (dec3 b0 b1 b2) = [b0, b1, b2]"
        using l k1 k2 by (intro roundtrip_3) simp_all
      show ?thesis
        unfolding Cons r d CodepointsToUtf8_Cons ih e by simp
    next
      case four
      obtain b1 b2 b3 rest' where r: "rest = b1 # b2 # b3 # rest'" and c1: "second_of_four b0 b1"
        and c2: "in_range 0x80 0xBF b2" and c3: "in_range 0x80 0xBF b3"
        and wfr: "well_formed_utf8 rest'"
        using wf four by (auto split: list.splits)
      note l = lead4_bits [OF four(4)]
      note k1 = second_of_four_bits [OF four(4) c1]
      note k2 = cont_bits [OF c2]
      note k3 = cont_bits [OF c3]
      have len: "Utf8CharLength b0 = 4" using l by (simp add: Utf8CharLength_bits)
      have d: "Utf8ToCodepoints (b0 # b1 # b2 # b3 # rest') =
                 dec4 b0 b1 b2 b3 # Utf8ToCodepoints rest'"
        using Utf8ToCodepoints_take [of b0 "b1 # b2 # b3 # rest'"] len by (simp add: decode_at_4)
      have ih: "CodepointsToUtf8 (Utf8ToCodepoints rest') = rest'"
        using wfr Cons r by (intro less.hyps) simp_all
      have e: "append_codepoint [] (dec4 b0 b1 b2 b3) = [b0, b1, b2, b3]"
        using l k1 k2 k3 by (intro roundtrip_4) simp_all
      show ?thesis
        unfolding Cons r d CodepointsToUtf8_Cons ih e by simp
    qed
  qed
qed

theorem encode_decode_well_formed_witness:
  "well_formed_utf8 [0x41, 0xC3, 0xA9, 0xE6, 0xBC, 0xA2, 0xF0, 0x9F, 0x98, 0x80] \<and>
   CodepointsToUtf8 (Utf8ToCodepoints [0x41, 0xC3, 0xA9, 0xE6, 0xBC, 0xA2, 0xF0, 0x9F, 0x98, 0x80])
     = [0x41, 0xC3, 0xA9, 0xE6, 0xBC, 0xA2, 0xF0, 0x9F, 0x98, 0x80]"
proof -
  have wf: "well_formed_utf8 [0x41, 0xC3, 0xA9, 0xE6, 0xBC, 0xA2, 0xF0, 0x9F, 0x98, 0x80]"
    by (simp add: in_range_def second_of_three_def second_of_four_def)
  show ?thesis using wf encode_decode_well_formed [OF wf] by simp
qed


text \<open>
  C2: for positive window sizes (values of a C++ \<open>int\<close>) and a text that fits in memory,
  \<open>GenerateHybridNgrams\<close> returns the UTF-8 renderings of a list of windows, each of them
  a run of consecutive codepoints of the decoded text. A window that starts at a CJK
  ideograph has exactly \<open>kanji_ngram_size\<close> codepoints, all of them CJK ideographs; a
  window that starts at any other codepoint has exactly \<open>ascii_ngram_size\<close> codepoints,
  none of them a CJK ideograph. So no emitted window mixes the two classes. Hiragana and
  Katakana (\<open>0x3040\<close> to \<open>0x30FF\<close>) are not CJK ideographs for \<open>IsCJKIdeograph\<close>.
\<close>

theorem GenerateHybridNgrams_class_uniform:
  assumes "0 < ascii_n" "ascii_n < 2 ^ 31" "0 < kanji_n" "kanji_n < 2 ^ 31"
      and "length text < 2 ^ 63"
  shows "\<exists>windows.
     GenerateHybridNgrams text ascii_n kanji_n = Inr (map CodepointsToUtf8 windows) \<and>
     (\<forall>w \<in> set windows.
        (\<exists>i. i + length w \<le> length (Utf8ToCodepoints text) \<and>
              w = take (length w) (drop i (Utf8ToCodepoints text))) \<and>
        w \<noteq> [] \<and>
        (if IsCJKIdeograph (hd w)
         then length w = nat kanji_n \<and> (\<forall>c \<in> set w. IsCJKIdeograph c)
         else length w = nat ascii_n \<and> (\<forall>c \<in> set w. \<not> IsCJKIdeograph c))) \<and>
     (\<forall>c. 0x3040 \<le> c \<and> c \<le> 0x30FF \<longrightarrow> \<not> IsCJKIdeograph c)"
proof -
  define cps where "cps = Utf8ToCodepoints text"
  define windows where
    "windows = List.map_filter (window_at cps (nat ascii_n) (nat kanji_n)) [0 ..< length cps]"
  have len: "length cps < 2 ^ 63"
    using Utf8ToCodepoints_length [of "text"] assms(5) by (simp add: cps_def)
  have run: "GenerateHybridNgrams text ascii_n kanji_n = Inr (map CodepointsToUtf8 windows)"
  proof (cases "cps = []")
    case True
    then show ?thesis
      by (simp add: GenerateHybridNgrams_def cps_def [symmetric] windows_def List.map_filter_simps)
  next
    case False
    then show ?thesis
      using hybrid_loop_eq [OF assms(1-4) len, of 0 "[]"]
      by (simp add: GenerateHybridNgrams_def cps_def [symmetric] windows_def)
  qed
  have uniform: "(\<exists>i. i + length w \<le> length cps \<and> w = take (length w) (drop i cps)) \<and>
        w \<noteq> [] \<and>
        (if IsCJKIdeograph (hd w)
         then length w = nat kanji_n \<and> (\<forall>c \<in> set w. IsCJKIdeograph c)
         else length w = nat ascii_n \<and> (\<forall>c \<in> set w. \<not> IsCJKIdeograph c))"
    if w_in: "w \<in> set windows" for w
  proof -
    obtain i where i: "i < length cps" "window_at cps (nat ascii_n) (nat kanji_n) i = Some w"
      using w_in by (auto simp: windows_def set_map_filter_iff)
    have a: "0 < nat ascii_n" "0 < nat kanji_n" using assms(1,3) by simp_all
    note p = window_at_Some [OF i(2) a i(1)]
    have cls: "if IsCJKIdeograph (hd w)
         then length w = nat kanji_n \<and> (\<forall>c \<in> set w. IsCJKIdeograph c)
         else length w = nat ascii_n \<and> (\<forall>c \<in> set w. \<not> IsCJKIdeograph c)"
      using p(4,5) unfolding p(3) by simp
    show ?thesis using p(1,2) cls by (intro conjI)
  qed
  have kana: "\<forall>c. 0x3040 \<le> c \<and> c \<le> 0x30FF \<longrightarrow> \<not> IsCJKIdeograph c"
    using kana_not_CJK by blast
  have all: "\<forall>w \<in> set windows.
        (\<exists>i. i + length w \<le> length (Utf8ToCodepoints text) \<and>
              w = take (length w) (drop i (Utf8ToCodepoints text))) \<and>
        w \<noteq> [] \<and>
        (if IsCJKIdeograph (hd w)
         then length w = nat kanji_n \<and> (\<forall>c \<in> set w. IsCJKIdeograph c)
         else length w = nat ascii_n \<and> (\<forall>c \<in> set w. \<not> IsCJKIdeograph c))"
  proof (rule ballI)
    fix w assume "w \<in> set windows"
    then show "(\<exists>i. i + length w \<le> length (Utf8ToCodepoints text) \<and>
              w = take (length w) (drop i (Utf8ToCodepoints text))) \<and>
        w \<noteq> [] \<and>
        (if IsCJKIdeograph (hd w)
         then length w = nat kanji_n \<and> (\<forall>c \<in> set w. IsCJKIdeograph c)
         else length w = nat ascii_n \<and> (\<forall>c \<in> set w. \<not> IsCJKIdeograph c))"
      by (rule uniform [unfolded cps_def])
  qed
  show ?thesis
    by (rule exI [of _ windows]) (rule conjI [OF run conjI [OF all kana]])
qed

theorem GenerateHybridNgrams_class_uniform_witness:
  "\<exists>windows.
     GenerateHybridNgrams [0x41, 0x49, 0xE6, 0xBC, 0xA2, 0xE5, 0xAD, 0x97, 0x74, 0x65, 0x73, 0x74] 2 1
       = Inr (map CodepointsToUtf8 windows) \<and>
     (\<forall>w \<in> set windows.
        (\<exists>i. i + length w \<le> length (Utf8ToCodepoints
                 [0x41, 0x49, 0xE6, 0xBC, 0xA2, 0xE5, 0xAD, 0x97, 0x74, 0x65, 0x73, 0x74]) \<and>
              w = take (length w) (drop i (Utf8ToCodepoints
                 [0x41, 0x49, 0xE6, 0xBC, 0xA2, 0xE5, 0xAD, 0x97, 0x74, 0x65, 0x73, 0x74]))) \<and>
        w \<noteq> [] \<and>
        (if IsCJKIdeograph (hd w)
         then length w = nat 1 \<and> (\<forall>c \<in> set w. IsCJKIdeograph c)
         else length w = nat 2 \<and> (\<forall>c \<in> set w. \<not> IsCJKIdeograph c))) \<and>
     (\<forall>c. 0x3040 \<le> c \<and> c \<le> 0x30FF \<longrightarrow> \<not> IsCJKIdeograph c)"
  by (rule GenerateHybridNgrams_class_uniform) simp_all

text \<open>
  C4, where the code differs: \<open>GenerateHybridNgrams\<close> has no test of the sizes (its
  sibling \<open>GenerateNgrams\<close> returns early for \<open>n \<le> 0\<close>). With \<open>ascii_ngram_size = 0\<close> the
  text \<open>a\<close> yields one empty n-gram, not the empty sequence; with a negative size the
  converted \<open>i + size\<close> wraps around, and on \<open>ab\<close> with \<open>ascii_ngram_size = -1\<close> the call
  of \<open>reserve\<close> throws.
\<close>

theorem GenerateHybridNgrams_nonpositive_size:
  "GenerateHybridNgrams (bytes_of ''a'') 0 1 = Inr [[]] \<and>
   GenerateHybridNgrams (bytes_of ''ab'') (- 1) 1 = Inl length_error"
  by (simp add: hybrid_eval)

end
